theory Spec2Isabelle
  imports Main "HOL-Library.AList"
begin

section \<open>Strings\<close>

text \<open>
  A Python \<open>str\<close> is modelled as a \<open>string\<close> whose characters are the code points
  below 256. The functions of this section are the methods of \<open>str\<close> that the scraper
  and the processor call.
\<close>

definition endswith :: "string \<Rightarrow> string \<Rightarrow> bool" where
  \<comment> \<open>\<open>s.endswith(ext)\<close>\<close>
  "endswith s ext = (length ext \<le> length s \<and> drop (length s - length ext) s = ext)"

fun startswith :: "string \<Rightarrow> string \<Rightarrow> bool" where
  \<comment> \<open>\<open>s.startswith(p)\<close>\<close>
  "startswith s [] = True"
| "startswith [] (c # p) = False"
| "startswith (d # s) (c # p) = (d = c \<and> startswith s p)"

fun str_in :: "string \<Rightarrow> string \<Rightarrow> bool" where
  \<comment> \<open>\<open>sub in s\<close> on strings: \<open>sub\<close> occurs in \<open>s\<close> as a contiguous block\<close>
  "str_in sub [] = (sub = [])"
| "str_in sub (c # s) = (startswith (c # s) sub \<or> str_in sub s)"

definition isspace :: "char \<Rightarrow> bool" where
  \<comment> \<open>\<open>c.isspace()\<close> on the code points below 256\<close>
  "isspace c = (let n = (of_char c :: nat) in
     (9 \<le> n \<and> n \<le> 13) \<or> (28 \<le> n \<and> n \<le> 32) \<or> n = 133 \<or> n = 160)"

definition strip :: "string \<Rightarrow> string" where
  \<comment> \<open>\<open>s.strip()\<close>\<close>
  "strip s = rev (dropWhile isspace (rev (dropWhile isspace s)))"

definition replace_char :: "char \<Rightarrow> char \<Rightarrow> string \<Rightarrow> string" where
  \<comment> \<open>\<open>s.replace(a, b)\<close> for one-character \<open>a\<close> and \<open>b\<close>\<close>
  "replace_char a b s = map (\<lambda>c. if c = a then b else c) s"

definition isalnum :: "char \<Rightarrow> bool" where
  \<comment> \<open>\<open>c.isalnum()\<close> on the code points below 256\<close>
  "isalnum c = (let n = (of_char c :: nat) in
     (48 \<le> n \<and> n \<le> 57) \<or> (65 \<le> n \<and> n \<le> 90) \<or> (97 \<le> n \<and> n \<le> 122) \<or>
     n = 170 \<or> n = 178 \<or> n = 179 \<or> n = 181 \<or> n = 185 \<or> n = 186 \<or>
     (188 \<le> n \<and> n \<le> 190) \<or> (192 \<le> n \<and> n \<le> 214) \<or> (216 \<le> n \<and> n \<le> 246) \<or>
     248 \<le> n)"

definition safe_char :: "char \<Rightarrow> bool" where
  \<comment> \<open>the characters that the pattern \<open>[^\w\-.]\<close> does not match\<close>
  "safe_char c = (isalnum c \<or> c = CHR ''_'' \<or> c = CHR ''-'' \<or> c = CHR ''.'')"

definition re_sub_unsafe :: "string \<Rightarrow> string" where
  \<comment> \<open>\<open>re.sub(r'[^\w\-.]', '_', s)\<close>\<close>
  "re_sub_unsafe s = map (\<lambda>c. if safe_char c then c else CHR ''_'') s"

fun os_path_join :: "string \<Rightarrow> string \<Rightarrow> string" where
  \<comment> \<open>\<open>os.path.join(a, b)\<close> of \<open>posixpath\<close>\<close>
  "os_path_join a b =
     (if startswith b ''/'' then b
      else if a = [] \<or> endswith a ''/'' then a @ b
      else a @ ''/'' @ b)"

section \<open>The library functions of \<open>urllib.parse\<close>\<close>

datatype py_error = ValueError | KeyError | OSError

record parse_result =
  scheme :: string
  netloc :: string
  path :: string
  params :: string
  query :: string
  fragment :: string

text \<open>
  \<open>urlparse\<close> and \<open>urljoin\<close> belong to the standard library, not to the repository.
  The scraper is modelled over any pair of such functions; both may raise
  (\<open>ValueError\<close> on a malformed authority), which is the \<open>Inl\<close> result.
\<close>

record urllib =
  urlparse :: "string \<Rightarrow> py_error + parse_result"
  urljoin :: "string \<Rightarrow> string \<Rightarrow> py_error + string"

text \<open>
  For the concrete runs below, \<open>std_urlparse\<close> follows \<open>urlsplit\<close> and \<open>urlparse\<close> of
  CPython 3.11 step by step: strip leading control characters and spaces, drop tab, CR
  and LF, take the scheme before the first colon, the authority after \<open>//\<close> up to the
  first of \<open>/?#\<close>, then the fragment, the query and the parameters of the last path
  segment. An authority with one square bracket but not the other raises; the library's
  further validation of a bracketed host as an IP literal is not part of this model.
\<close>

definition scheme_chars :: "char set" where
  "scheme_chars = set ''abcdefghijklmnopqrstuvwxyzABCDEFGHIJKLMNOPQRSTUVWXYZ0123456789+-.''"

definition ascii_lower :: "char \<Rightarrow> char" where
  \<comment> \<open>\<open>c.lower()\<close> on ASCII\<close>
  "ascii_lower c =
     (case map_of (zip ''ABCDEFGHIJKLMNOPQRSTUVWXYZ'' ''abcdefghijklmnopqrstuvwxyz'') c of
        Some d \<Rightarrow> d
      | None \<Rightarrow> c)"

definition ascii_alpha :: "char \<Rightarrow> bool" where
  "ascii_alpha c = (let n = (of_char c :: nat) in
     (65 \<le> n \<and> n \<le> 90) \<or> (97 \<le> n \<and> n \<le> 122))"

definition uses_params :: "string list" where
  "uses_params = ['''', ''ftp'', ''hdl'', ''prospero'', ''http'', ''imap'', ''https'',
     ''shttp'', ''rtsp'', ''rtsps'', ''rtspu'', ''sip'', ''sips'', ''mms'', ''sftp'', ''tel'']"

definition split_scheme :: "string \<Rightarrow> string \<times> string" where
  \<comment> \<open>the scheme and the rest; no scheme when there is no colon, the colon is first,
      the first character is not an ASCII letter, or a character before the colon is
      not a scheme character\<close>
  "split_scheme u =
     (let pre = takeWhile (\<lambda>c. c \<noteq> CHR '':'') u in
      if CHR '':'' \<in> set u \<and> pre \<noteq> [] \<and> ascii_alpha (hd u)
         \<and> list_all (\<lambda>c. c \<in> scheme_chars) pre
      then (map ascii_lower pre, drop (length pre + 1) u)
      else ('''', u))"

definition splitnetloc :: "string \<Rightarrow> string \<times> string" where
  \<comment> \<open>\<open>_splitnetloc(url, 2)\<close>: \<open>url\<close> starts with \<open>//\<close>\<close>
  "splitnetloc u =
     (let r = drop 2 u;
          dom = takeWhile (\<lambda>c. c \<noteq> CHR ''/'' \<and> c \<noteq> CHR ''?'' \<and> c \<noteq> CHR ''#'') r
      in (dom, drop (length dom) r))"

definition split_first :: "char \<Rightarrow> string \<Rightarrow> string \<times> string" where
  \<comment> \<open>\<open>s.split(c, 1)\<close> when \<open>c\<close> occurs in \<open>s\<close>; \<open>(s, '')\<close> otherwise\<close>
  "split_first c s =
     (let pre = takeWhile (\<lambda>d. d \<noteq> c) s in (pre, drop (length pre + 1) s))"

definition splitparams :: "string \<Rightarrow> string \<times> string" where
  \<comment> \<open>\<open>_splitparams(url)\<close>: the first semicolon at or after the last slash\<close>
  "splitparams p =
     (let seg = rev (takeWhile (\<lambda>c. c \<noteq> CHR ''/'') (rev p));
          head = take (length p - length seg) p;
          (a, b) = split_first (CHR '';'') seg
      in (head @ a, b))"

definition std_urlparse :: "string \<Rightarrow> py_error + parse_result" where
  "std_urlparse u0 =
     (let u1 = dropWhile (\<lambda>c. (of_char c :: nat) \<le> 32) u0;
          u2 = filter (\<lambda>c. (of_char c :: nat) \<noteq> 9 \<and> (of_char c :: nat) \<noteq> 13
                            \<and> (of_char c :: nat) \<noteq> 10) u1;
          (sch, u3) = split_scheme u2;
          (nl, u4) = (if take 2 u3 = ''//'' then splitnetloc u3 else ('''', u3))
      in if (CHR ''['' \<in> set nl) \<noteq> (CHR '']'' \<in> set nl) then Inl ValueError
         else
           let (u5, frag) = split_first (CHR ''#'') u4;
               (u6, q) = split_first (CHR ''?'') u5;
               (p, prm) = (if sch \<in> set uses_params \<and> CHR '';'' \<in> set u6
                           then splitparams u6 else (u6, ''''))
           in Inr \<lparr>scheme = sch, netloc = nl, path = p, params = prm, query = q,
                    fragment = frag\<rparr>)"

definition std_urljoin :: "string \<Rightarrow> string \<Rightarrow> py_error + string" where
  \<comment> \<open>\<open>urljoin(base, href)\<close> for an \<open>href\<close> that is already an absolute URL of the
      scheme of \<open>base\<close> with an authority: the library returns it as it is. The
      concrete runs below only contain such links.\<close>
  "std_urljoin base href = Inr href"

definition std :: urllib where
  "std = \<lparr>urlparse = std_urlparse, urljoin = std_urljoin\<rparr>"

section \<open>The scraper: URL classifier\<close>

definition DOC_HOST :: string where
  "DOC_HOST = ''documentation.its.umich.edu''"

definition NON_HTML_EXTS :: "string list" where
  "NON_HTML_EXTS = [''.pdf'', ''.doc'', ''.docx'', ''.jpg'', ''.png'', ''.gif'']"

definition is_valid_url :: "urllib \<Rightarrow> string \<Rightarrow> py_error + bool" where
  \<comment> \<open>\<open>ARCDocScraper.is_valid_url\<close>\<close>
  "is_valid_url L u =
     (case urlparse L u of
        Inl e \<Rightarrow> Inl e
      | Inr parsed_url \<Rightarrow>
          if \<not> str_in DOC_HOST (netloc parsed_url) then Inr False
          else if list_ex (\<lambda>ext. endswith u ext) NON_HTML_EXTS then Inr False
          else Inr True)"

section \<open>The scraper: pages, documents and state\<close>

record link =
  link_url :: string
  link_text :: string

record page_info =
  url :: string
  title :: string
  content :: string
  links :: "link list"

text \<open>
  A parsed document (the \<open>BeautifulSoup\<close> object), as far as the scraper reads it:
  the text of its \<open>title\<close> element if there is one, and the first
  \<open>div\<close> of class \<open>region-content\<close> if there is one, with its text
  (\<open>get_text(separator='\n', strip=True)\<close>) and its anchors that carry an
  \<open>href\<close>, each with the text \<open>get_text(strip=True)\<close>.
\<close>

record region =
  region_text :: string
  anchors :: "(string \<times> string) list"

record soup =
  soup_title :: "string option"
  region_content :: "region option"

text \<open>
  What \<open>self.session.get(url)\<close> does: it raises (no connection, a timeout, an
  invalid URL, too many redirects), or it returns the final response, of which the
  scraper reads the status code and the body; the body is given as the document that
  \<open>html.parser\<close> makes of it. \<open>NoResponse\<close> stands for every exception of the
  \<open>try\<close> block of \<open>get_soup\<close> other than the one of \<open>raise_for_status\<close>.
\<close>

datatype response = NoResponse | Response nat soup

text \<open>
  What a file holds is the value that \<open>json.dump\<close> was given and that
  \<open>json.load\<close> gives back. The visited set is dumped as a list in the set's own
  order, so the file is modelled by the set. \<open>Truncated\<close> is a file that was opened
  for writing and not written to its end.
\<close>

datatype file_content =
    PageFile page_info
  | LinkMapFile "(string \<times> string list) list"
  | VisitedFile "string set"
  | IndexFile nat "(string \<times> string \<times> nat) list"
  | Truncated

text \<open>
  What \<open>with open(path, 'w') as f: json.dump(c, f)\<close> does is for the operating system
  to say: the file is written, or \<open>open\<close> raises \<open>OSError\<close> and the disk is as it
  was, or \<open>open\<close> empties the file and the write raises \<open>OSError\<close> before its end.
\<close>

datatype write_result = Written | OpenFails | DumpFails

text \<open>
  The effects of a run, in order: additions to the visited set, requests, file writes
  and sleeps.
\<close>

datatype event = Mark string | Get string | Write string file_content | Sleep nat

text \<open>
  The state is the scraper object together with the disk: \<open>files\<close> is what the disk
  holds, \<open>disk\<close> is the answer of the operating system to a write, given what the disk
  holds, the path and the content.
\<close>

record scraper =
  base_url :: string
  output_dir :: string
  delay :: nat
  visited_urls :: "string set"
  pages :: "(string \<times> page_info) list"
  link_map :: "(string \<times> string list) list"
  files :: "string \<rightharpoonup> file_content"
  disk :: "(string \<rightharpoonup> file_content) \<Rightarrow> string \<Rightarrow> file_content \<Rightarrow> write_result"
  trace :: "event list"

definition BASE_URL :: string where
  "BASE_URL = ''https://documentation.its.umich.edu/advanced-research-computing''"

definition OUTPUT_DIR :: string where
  "OUTPUT_DIR = ''umich_arc_docs''"

definition DELAY :: nat where
  "DELAY = 1"

definition MAX_PAGES :: nat where
  "MAX_PAGES = 1000"

definition new_scraper ::
  "string \<Rightarrow> string \<Rightarrow> nat \<Rightarrow> (string \<rightharpoonup> file_content)
     \<Rightarrow> ((string \<rightharpoonup> file_content) \<Rightarrow> string \<Rightarrow> file_content \<Rightarrow> write_result) \<Rightarrow> scraper" where
  \<comment> \<open>\<open>ARCDocScraper.__init__\<close>, on a disk that holds \<open>fs\<close> and answers as \<open>dk\<close>\<close>
  "new_scraper b out d fs dk =
     \<lparr>base_url = b, output_dir = out, delay = d, visited_urls = {}, pages = [],
      link_map = [], files = fs, disk = dk, trace = []\<rparr>"

definition write_file :: "string \<Rightarrow> file_content \<Rightarrow> scraper \<Rightarrow> py_error \<times> scraper + scraper" where
  \<comment> \<open>\<open>with open(path, 'w') as f: json.dump(c, f)\<close>: the state after the write, or the
      exception with the state in which it is raised\<close>
  "write_file fp c s =
     (case disk s (files s) fp c of
        Written \<Rightarrow> Inr (s\<lparr>files := (files s)(fp \<mapsto> c), trace := trace s @ [Write fp c]\<rparr>)
      | OpenFails \<Rightarrow> Inl (OSError, s)
      | DumpFails \<Rightarrow>
          Inl (OSError, s\<lparr>files := (files s)(fp \<mapsto> Truncated),
                             trace := trace s @ [Write fp Truncated]\<rparr>))"

definition sleep :: "nat \<Rightarrow> scraper \<Rightarrow> scraper" where
  "sleep d s = s\<lparr>trace := trace s @ [Sleep d]\<rparr>"

definition get_soup :: "(string \<Rightarrow> response) \<Rightarrow> string \<Rightarrow> scraper \<Rightarrow> soup option \<times> scraper" where
  \<comment> \<open>\<open>ARCDocScraper.get_soup\<close>, with \<open>F u\<close> what the request for \<open>u\<close> does:
      \<open>raise_for_status\<close> raises for a status from 400 to 599, and every exception
      of the \<open>try\<close> block is caught and gives \<open>None\<close>\<close>
  "get_soup F u s =
     (let s' = s\<lparr>trace := trace s @ [Get u]\<rparr>
      in case F u of
           NoResponse \<Rightarrow> (None, s')
         | Response status sp \<Rightarrow>
             if 400 \<le> status \<and> status < 600 then (None, s') else (Some sp, s'))"

section \<open>The scraper: content extractor\<close>

fun extract_links :: "urllib \<Rightarrow> string \<Rightarrow> (string \<times> string) list \<Rightarrow> link list \<Rightarrow> py_error + link list" where
  \<comment> \<open>the loop over \<open>main_content.find_all('a', href=True)\<close>\<close>
  "extract_links L u [] acc = Inr acc"
| "extract_links L u ((href, txt) # rest) acc =
     (case urljoin L u href of
        Inl e \<Rightarrow> Inl e
      | Inr full_url \<Rightarrow>
          (case is_valid_url L full_url of
             Inl e \<Rightarrow> Inl e
           | Inr ok \<Rightarrow>
               extract_links L u rest
                 (if ok
                  then acc @ [\<lparr>link_url = full_url,
                               link_text = (if txt = [] then ''No Link Text'' else txt)\<rparr>]
                  else acc)))"

definition extract_page_info :: "urllib \<Rightarrow> soup \<Rightarrow> string \<Rightarrow> py_error + page_info" where
  \<comment> \<open>\<open>ARCDocScraper.extract_page_info\<close>\<close>
  "extract_page_info L sp u =
     (let page = \<lparr>url = u,
                   title = (case soup_title sp of Some t \<Rightarrow> strip t | None \<Rightarrow> ''No Title''),
                   content = '''',
                   links = []\<rparr>
      in case region_content sp of
           None \<Rightarrow> Inr page
         | Some main_content \<Rightarrow>
             (case extract_links L u (anchors main_content) [] of
                Inl e \<Rightarrow> Inl e
              | Inr ls \<Rightarrow> Inr (page\<lparr>content := region_text main_content, links := ls\<rparr>)))"

section \<open>The scraper: persistence\<close>

definition save_page ::
  "urllib \<Rightarrow> scraper \<Rightarrow> page_info \<Rightarrow> py_error \<times> scraper + string \<times> scraper" where
  \<comment> \<open>\<open>ARCDocScraper.save_page\<close>: the file path and the state after the write, or the
      exception of \<open>urlparse\<close> or of the write\<close>
  "save_page L s page =
     (case urlparse L (url page) of
        Inl e \<Rightarrow> Inl (e, s)
      | Inr parsed_url \<Rightarrow>
          let filename = replace_char (CHR ''/'') (CHR ''_'') (path parsed_url);
              filename = (if filename = [] then ''index'' else filename);
              filename = re_sub_unsafe filename;
              filename = (if query parsed_url \<noteq> []
                          then filename @ ''_'' @ re_sub_unsafe (query parsed_url)
                          else filename);
              filepath = os_path_join (output_dir s) (filename @ ''.json'')
          in case write_file filepath (PageFile page) s of
               Inl raised \<Rightarrow> Inl raised
             | Inr s' \<Rightarrow> Inr (filepath, s'))"

definition save_progress :: "scraper \<Rightarrow> py_error \<times> scraper + scraper" where
  \<comment> \<open>\<open>ARCDocScraper.save_progress\<close>\<close>
  "save_progress s =
     (case write_file (os_path_join (output_dir s) ''link_map.json'')
             (LinkMapFile (link_map s)) s of
        Inl raised \<Rightarrow> Inl raised
      | Inr s1 \<Rightarrow>
          write_file (os_path_join (output_dir s1) ''visited_urls.json'')
            (VisitedFile (visited_urls s1)) s1)"

definition create_index :: "scraper \<Rightarrow> py_error \<times> scraper + scraper" where
  \<comment> \<open>\<open>ARCDocScraper.create_index\<close>\<close>
  "create_index s =
     write_file (os_path_join (output_dir s) ''index.json'')
       (IndexFile (length (pages s))
          (map (\<lambda>(u, page). (u, title page, length (links page))) (pages s))) s"

section \<open>The scraper: traversal\<close>

fun add_links :: "string \<Rightarrow> link list \<Rightarrow> scraper \<Rightarrow> string list \<Rightarrow> scraper \<times> string list" where
  \<comment> \<open>the loop over \<open>page_info['links']\<close> in \<open>crawl\<close>: the state and the queue after it\<close>
  "add_links u [] s q = (s, q)"
| "add_links u (l # ls) s q =
     (let lu = link_url l;
          q1 = (if lu \<notin> visited_urls s \<and> lu \<notin> set q
                then (if str_in DOC_HOST lu then q @ [lu] else q)
                else q);
          lm1 = (if map_of (link_map s) u = None
                 then AList.update u [] (link_map s) else link_map s);
          lm2 = (case map_of lm1 u of
                   None \<Rightarrow> lm1
                 | Some old \<Rightarrow> AList.update u (old @ [lu]) lm1)
      in add_links u ls (s\<lparr>link_map := lm2\<rparr>) q1)"

datatype iter_result =
    is_Next: Next (next_state: scraper) (next_queue: "string list") (next_counter: nat)
  | Raised (raised_state: scraper) (raised_error: py_error)

definition crawl_iter ::
  "urllib \<Rightarrow> (string \<Rightarrow> response) \<Rightarrow> scraper \<Rightarrow> string \<Rightarrow> string list \<Rightarrow> nat \<Rightarrow> iter_result" where
  \<comment> \<open>one pass through the body of the \<open>while\<close> loop of \<open>crawl\<close>, with \<open>u\<close> the
      popped head of the queue, \<open>q0\<close> the rest and \<open>c\<close> the page counter: the
      configuration for the next pass, or the exception that leaves the loop with the
      state in which it is raised\<close>
  "crawl_iter L F s u q0 c =
     (if u \<in> visited_urls s then Next s q0 c
      else
        let s1 = s\<lparr>visited_urls := insert u (visited_urls s), trace := trace s @ [Mark u]\<rparr>;
            c1 = c + 1;
            (sp_opt, s2) = get_soup F u s1
        in case sp_opt of
             None \<Rightarrow> Next s2 q0 c1
           | Some sp \<Rightarrow>
               (case extract_page_info L sp u of
                  Inl e \<Rightarrow> Raised s2 e
                | Inr page \<Rightarrow>
                    let s3 = s2\<lparr>pages := AList.update u page (pages s2)\<rparr> in
                    (case save_page L s3 page of
                       Inl (e, s3') \<Rightarrow> Raised s3' e
                     | Inr (fp, s4) \<Rightarrow>
                         let (s5, q1) = add_links u (links page) s4 q0 in
                         if c1 mod 10 = 0
                         then (case save_progress s5 of
                                 Inl (e, s5') \<Rightarrow> Raised s5' e
                               | Inr s6 \<Rightarrow> Next (sleep (delay s6) s6) q1 c1)
                         else Next (sleep (delay s5) s5) q1 c1)))"

lemma crawl_iter_counter:
  assumes "crawl_iter L F s u q0 c = Next s' q' c'"
  shows "(c' = c \<and> q' = q0) \<or> c' = c + 1"
  using assms
  by (auto simp: crawl_iter_def Let_def get_soup_def
           split: if_splits option.splits sum.splits prod.splits response.splits)

function crawl_loop ::
  "urllib \<Rightarrow> (string \<Rightarrow> response) \<Rightarrow> nat \<Rightarrow> scraper \<Rightarrow> string list \<Rightarrow> nat
     \<Rightarrow> scraper \<times> py_error option" where
  \<comment> \<open>\<open>while urls_to_visit and page_counter < MAX_PAGES\<close>; the cap is the parameter
      \<open>M\<close>. The result is the state at the exit and the exception that ended the loop,
      if one did.\<close>
  "crawl_loop L F M s q c =
     (case q of
        [] \<Rightarrow> (s, None)
      | u # q0 \<Rightarrow>
          if c < M
          then (case crawl_iter L F s u q0 c of
                  Next s' q' c' \<Rightarrow> crawl_loop L F M s' q' c'
                | Raised s' e \<Rightarrow> (s', Some e))
          else (s, None))"
  by pat_completeness auto
termination
proof (relation "measures [\<lambda>(L, F, M, s, q, c). M - c, \<lambda>(L, F, M, s, q, c). length q]")
  show "wf (measures [\<lambda>(L, F, M, s, q, c). M - c, \<lambda>(L, F, M, s, q, c). length q])"
    by simp
next
  fix L F M s q c u q0 s' q' c'
  assume "q = u # q0" "c < M" "crawl_iter L F s u q0 c = Next s' q' c'"
  then show "((L, F, M, s', q', c'), (L, F, M, s, q, c))
       \<in> measures [\<lambda>(L, F, M, s, q, c). M - c, \<lambda>(L, F, M, s, q, c). length q]"
    using crawl_iter_counter [of L F s u q0 c s' q' c'] by auto
qed

declare crawl_loop.simps [simp del]

definition initial_frontier :: "scraper \<Rightarrow> string option \<Rightarrow> string list" where
  \<comment> \<open>\<open>urls_to_visit = [start_url]\<close>, with \<open>self.base_url\<close> for a missing argument\<close>
  "initial_frontier s start_url =
     [case start_url of None \<Rightarrow> base_url s | Some u \<Rightarrow> u]"

definition crawl ::
  "urllib \<Rightarrow> (string \<Rightarrow> response) \<Rightarrow> nat \<Rightarrow> scraper \<Rightarrow> string option
     \<Rightarrow> scraper \<times> py_error option" where
  \<comment> \<open>\<open>ARCDocScraper.crawl\<close>; \<open>M\<close> is the module constant \<open>MAX_PAGES\<close>. The final
      \<open>save_progress\<close> runs when the loop ends without an exception, and may raise.\<close>
  "crawl L F M s start_url =
     (case crawl_loop L F M s (initial_frontier s start_url) 0 of
        (s', Some e) \<Rightarrow> (s', Some e)
      | (s', None) \<Rightarrow>
          (case save_progress s' of
             Inl (e, s'') \<Rightarrow> (s'', Some e)
           | Inr s'' \<Rightarrow> (s'', None)))"

fun crawl_seeds ::
  "urllib \<Rightarrow> (string \<Rightarrow> response) \<Rightarrow> nat \<Rightarrow> scraper \<Rightarrow> string list
     \<Rightarrow> scraper \<times> py_error option" where
  \<comment> \<open>one scraper crawling from several seeds in turn, as the main script does; an
      exception ends the script\<close>
  "crawl_seeds L F M s [] = (s, None)"
| "crawl_seeds L F M s (seed # seeds) =
     (case crawl L F M s (Some seed) of
        (s', Some e) \<Rightarrow> (s', Some e)
      | (s', None) \<Rightarrow> crawl_seeds L F M s' seeds)"

definition main ::
  "urllib \<Rightarrow> (string \<Rightarrow> response) \<Rightarrow> (string \<rightharpoonup> file_content)
     \<Rightarrow> ((string \<rightharpoonup> file_content) \<Rightarrow> string \<Rightarrow> file_content \<Rightarrow> write_result)
     \<Rightarrow> scraper \<times> py_error option" where
  \<comment> \<open>the script body under \<open>if __name__ == "__main__"\<close>\<close>
  "main L F fs dk =
     (case crawl_seeds L F MAX_PAGES (new_scraper BASE_URL OUTPUT_DIR DELAY fs dk)
             [BASE_URL, BASE_URL @ ''?page=1''] of
        (s, Some e) \<Rightarrow> (s, Some e)
      | (s, None) \<Rightarrow>
          (case create_index s of
             Inl (e, s') \<Rightarrow> (s', Some e)
           | Inr s' \<Rightarrow> (s', None)))"

subsection \<open>The loop, one step at a time\<close>

text \<open>
  \<open>fetched F u\<close> is the document that \<open>get_soup\<close> returns for \<open>u\<close>, if it returns
  one. \<open>visit F u s\<close> is the state in which the body of the loop has marked \<open>u\<close> as
  visited and then requested it. \<open>lm_step\<close> and \<open>q_step\<close> are what one link does to
  the link map and to the queue. \<open>loop_reach L F M k k'\<close> holds when the loop, started
  in the configuration \<open>k\<close> (state, queue, page counter), is at the head of an
  iteration in the configuration \<open>k'\<close>.
\<close>

definition fetched :: "(string \<Rightarrow> response) \<Rightarrow> string \<Rightarrow> soup option" where
  "fetched F u =
     (case F u of
        NoResponse \<Rightarrow> None
      | Response status sp \<Rightarrow> if 400 \<le> status \<and> status < 600 then None else Some sp)"

definition visit :: "(string \<Rightarrow> response) \<Rightarrow> string \<Rightarrow> scraper \<Rightarrow> scraper" where
  "visit F u s =
     snd (get_soup F u
           (s\<lparr>visited_urls := insert u (visited_urls s), trace := trace s @ [Mark u]\<rparr>))"

definition lm_step :: "string \<Rightarrow> string \<Rightarrow> (string \<times> string list) list \<Rightarrow> (string \<times> string list) list" where
  "lm_step u lu lm =
     (let lm1 = (if map_of lm u = None then AList.update u [] lm else lm)
      in case map_of lm1 u of None \<Rightarrow> lm1 | Some old \<Rightarrow> AList.update u (old @ [lu]) lm1)"

definition q_step :: "scraper \<Rightarrow> string list \<Rightarrow> string \<Rightarrow> string list" where
  "q_step s q lu =
     (if lu \<notin> visited_urls s \<and> lu \<notin> set q
      then (if str_in DOC_HOST lu then q @ [lu] else q)
      else q)"

inductive loop_reach ::
  "urllib \<Rightarrow> (string \<Rightarrow> response) \<Rightarrow> nat \<Rightarrow> scraper \<times> string list \<times> nat
     \<Rightarrow> scraper \<times> string list \<times> nat \<Rightarrow> bool"
  for L F M k where
    start: "loop_reach L F M k k"
  | iter: "loop_reach L F M k (s, u # q0, c) \<Longrightarrow> c < M
           \<Longrightarrow> crawl_iter L F s u q0 c = Next s' q' c'
           \<Longrightarrow> loop_reach L F M k (s', q', c')"

definition gets :: "event list \<Rightarrow> string list" where
  \<comment> \<open>the URLs requested, in order\<close>
  "gets tr = concat (map (\<lambda>e. case e of Get u \<Rightarrow> [u] | _ \<Rightarrow> []) tr)"

definition visited_snapshots :: "event list \<Rightarrow> string set list" where
  \<comment> \<open>the visited sets written by the checkpoints of a run, in order\<close>
  "visited_snapshots tr =
     concat (map (\<lambda>e. case e of Write fp (VisitedFile V) \<Rightarrow> [V] | _ \<Rightarrow> []) tr)"

definition wrote_only :: "scraper \<Rightarrow> scraper \<Rightarrow> bool" where
  \<comment> \<open>between the two states only files were written\<close>
  "wrote_only s s' \<longleftrightarrow>
     visited_urls s' = visited_urls s \<and> pages s' = pages s \<and> link_map s' = link_map s
     \<and> output_dir s' = output_dir s \<and> delay s' = delay s \<and> base_url s' = base_url s
     \<and> disk s' = disk s \<and> gets (trace s') = gets (trace s)"

fun iter_finish :: "scraper \<times> string list \<Rightarrow> nat \<Rightarrow> iter_result" where
  \<comment> \<open>the end of the loop body, after the loop over the links: the periodic
      checkpoint and the sleep\<close>
  "iter_finish (s5, q1) c1 =
     (if c1 mod 10 = 0
      then (case save_progress s5 of
              Inl (e, s5') \<Rightarrow> Raised s5' e
            | Inr s6 \<Rightarrow> Next (sleep (delay s6) s6) q1 c1)
      else Next (sleep (delay s5) s5) q1 c1)"

definition checkpoints_writable :: "scraper \<Rightarrow> bool" where
  \<comment> \<open>the disk accepts every write to the two checkpoint files\<close>
  "checkpoints_writable s \<longleftrightarrow>
     (\<forall>fs c. disk s fs (os_path_join (output_dir s) ''link_map.json'') c = Written
          \<and> disk s fs (os_path_join (output_dir s) ''visited_urls.json'') c = Written)"

definition fetch_once :: "scraper \<Rightarrow> bool" where
  \<comment> \<open>no URL was requested twice, and every requested URL is in the visited set\<close>
  "fetch_once s \<longleftrightarrow> distinct (gets (trace s)) \<and> set (gets (trace s)) \<subseteq> visited_urls s"

definition store_inv :: "urllib \<Rightarrow> (string \<Rightarrow> response) \<Rightarrow> scraper \<Rightarrow> bool" where
  \<comment> \<open>the link map has the links of the stored pages and nothing else, the stored
      pages are of visited URLs, and each is what the extractor made of the fetched
      document\<close>
  "store_inv L F s \<longleftrightarrow>
     (\<forall>v. map_of (link_map s) v =
          (case map_of (pages s) v of
             None \<Rightarrow> None
           | Some p \<Rightarrow> if links p = [] then None else Some (map link_url (links p))))
     \<and> fst ` set (pages s) \<subseteq> visited_urls s
     \<and> (\<forall>v p. map_of (pages s) v = Some p
            \<longrightarrow> (\<exists>sp. fetched F v = Some sp \<and> extract_page_info L sp v = Inr p))"

definition page_path :: "string \<Rightarrow> string \<Rightarrow> string \<Rightarrow> string" where
  \<comment> \<open>the file path of \<open>save_page\<close> as a function of the output directory and of the
      path and the query of the parsed URL\<close>
  "page_path out pth qry =
     (let filename = replace_char (CHR ''/'') (CHR ''_'') pth;
          filename = (if filename = [] then ''index'' else filename);
          filename = re_sub_unsafe filename;
          filename = (if qry \<noteq> [] then filename @ ''_'' @ re_sub_unsafe qry else filename)
      in os_path_join out (filename @ ''.json''))"

section \<open>The processor\<close>

fun load_data ::
  "string \<Rightarrow> (string \<rightharpoonup> file_content) \<Rightarrow> string list \<Rightarrow> (string \<times> page_info) list
     \<Rightarrow> (string \<times> page_info) list" where
  \<comment> \<open>\<open>ARCDocProcessor.load_data\<close>: \<open>listing\<close> is \<open>os.listdir(self.input_dir)\<close>, the last
      argument is \<open>self.pages\<close>. A file that cannot be opened, or that holds no object
      with a \<open>url\<close> string, raises inside the \<open>try\<close> and is skipped.\<close>
  "load_data input_dir fs [] ps = ps"
| "load_data input_dir fs (filename # listing) ps =
     (if endswith filename ''.json'' \<and> filename \<noteq> ''index.json''
         \<and> filename \<noteq> ''link_map.json'' \<and> filename \<noteq> ''visited_urls.json''
      then (case fs (os_path_join input_dir filename) of
              Some (PageFile page_data) \<Rightarrow>
                load_data input_dir fs listing (AList.update (url page_data) page_data ps)
            | _ \<Rightarrow> load_data input_dir fs listing ps)
      else load_data input_dir fs listing ps)"

text \<open>
  The directed graph of \<open>networkx\<close>: the nodes in the order of their insertion, each
  with its \<open>title\<close> attribute, if it has one, and its successors in the order of
  their insertion, each with the \<open>text\<close> attribute of the edge.
\<close>

record node_data =
  attr_title :: "string option"
  succ :: "(string \<times> string) list"

type_synonym digraph = "(string \<times> node_data) list"

definition add_node :: "digraph \<Rightarrow> string \<Rightarrow> string \<Rightarrow> digraph" where
  \<comment> \<open>\<open>G.add_node(n, title=t)\<close>\<close>
  "add_node g n t =
     (case map_of g n of
        None \<Rightarrow> g @ [(n, \<lparr>attr_title = Some t, succ = []\<rparr>)]
      | Some d \<Rightarrow> AList.update n (d\<lparr>attr_title := Some t\<rparr>) g)"

definition ensure_node :: "digraph \<Rightarrow> string \<Rightarrow> digraph" where
  \<comment> \<open>\<open>add_edge\<close> creates a missing end point, without attributes\<close>
  "ensure_node g n =
     (case map_of g n of
        None \<Rightarrow> g @ [(n, \<lparr>attr_title = None, succ = []\<rparr>)]
      | Some d \<Rightarrow> g)"

definition add_edge :: "digraph \<Rightarrow> string \<Rightarrow> string \<Rightarrow> string \<Rightarrow> digraph" where
  \<comment> \<open>\<open>G.add_edge(u, v, text=t)\<close>: an edge that is there already gets the new text\<close>
  "add_edge g u v t =
     (let g1 = ensure_node g u;
          g2 = ensure_node g1 v
      in case map_of g2 u of
           None \<Rightarrow> g2
         | Some d \<Rightarrow> AList.update u (d\<lparr>succ := AList.update v t (succ d)\<rparr>) g2)"

record node_entry =
  node_id :: string
  node_title :: string

record edge_entry =
  edge_source :: string
  edge_target :: string
  edge_text :: string

record graph_data =
  gd_nodes :: "node_entry list"
  gd_edges :: "edge_entry list"

fun export_nodes :: "digraph \<Rightarrow> py_error + node_entry list" where
  \<comment> \<open>\<open>[{'id': node, 'title': self.graph.nodes[node]['title']} for node in self.graph.nodes]\<close>\<close>
  "export_nodes [] = Inr []"
| "export_nodes ((n, d) # g) =
     (case attr_title d of
        None \<Rightarrow> Inl KeyError
      | Some t \<Rightarrow>
          (case export_nodes g of
             Inl e \<Rightarrow> Inl e
           | Inr ns \<Rightarrow> Inr (\<lparr>node_id = n, node_title = t\<rparr> # ns)))"

definition export_edges :: "digraph \<Rightarrow> edge_entry list" where
  \<comment> \<open>\<open>[{'source': u, 'target': v, 'text': ...} for u, v in self.graph.edges]\<close>\<close>
  "export_edges g =
     concat (map (\<lambda>(u, d). map (\<lambda>(v, t). \<lparr>edge_source = u, edge_target = v, edge_text = t\<rparr>)
                               (succ d)) g)"

fun add_page_edges :: "string \<Rightarrow> link list \<Rightarrow> (string \<times> page_info) list \<Rightarrow> digraph \<Rightarrow> digraph" where
  \<comment> \<open>the loop over \<open>page['links']\<close> in \<open>build_link_graph\<close>\<close>
  "add_page_edges u [] ps g = g"
| "add_page_edges u (l # ls) ps g =
     add_page_edges u ls ps
       (if map_of ps (link_url l) \<noteq> None then add_edge g u (link_url l) (link_text l) else g)"

definition build_link_graph ::
  "(string \<times> page_info) list \<Rightarrow> digraph \<Rightarrow> digraph \<times> (py_error + graph_data)" where
  \<comment> \<open>\<open>ARCDocProcessor.build_link_graph\<close> on the pages \<open>ps\<close> and the graph \<open>g\<close>: the
      graph after it and the exported data, or the exception of the export\<close>
  "build_link_graph ps g =
     (let g1 = fold (\<lambda>(u, page) g. add_node g u (title page)) ps g;
          g2 = fold (\<lambda>(u, page) g. add_page_edges u (links page) ps g) ps g1
      in (g2, case export_nodes g2 of
                Inl e \<Rightarrow> Inl e
              | Inr ns \<Rightarrow> Inr \<lparr>gd_nodes = ns, gd_edges = export_edges g2\<rparr>))"

definition INPUT_DIR :: string where
  "INPUT_DIR = ''umich_arc_docs''"

text \<open>
  Two predicates on the graph for the proofs about \<open>build_link_graph\<close>.
\<close>

definition known :: "(string \<times> page_info) list \<Rightarrow> digraph \<Rightarrow> bool" where
  \<comment> \<open>the nodes of the graph are the keys of the page store, in order, each with the
      title of its page, and every edge is a link of the page of its source to a key
      of the page store, with the text of that link\<close>
  "known ps g \<longleftrightarrow>
     map (\<lambda>(n, d). (n, attr_title d)) g = map (\<lambda>(u, p). (u, Some (title p))) ps
     \<and> (\<forall>(n, d) \<in> set g. \<forall>(v, t) \<in> set (succ d).
           v \<in> fst ` set ps
           \<and> (\<exists>p l. map_of ps n = Some p \<and> l \<in> set (links p) \<and> link_url l = v
                  \<and> link_text l = t))"

definition has_edge :: "digraph \<Rightarrow> string \<Rightarrow> string \<Rightarrow> bool" where
  "has_edge g u v \<longleftrightarrow> (\<exists>d. map_of g u = Some d \<and> map_of (succ d) v \<noteq> None)"

section \<open>Concrete worlds\<close>

text \<open>
  A disk that refuses a path with a name of more than 255 characters and accepts every
  other write, and a fresh scraper on such a disk, empty.
\<close>

fun names_fit :: "nat \<Rightarrow> string \<Rightarrow> bool" where
  \<comment> \<open>no name between two slashes is longer than 255; \<open>n\<close> is the length of the name
      read so far\<close>
  "names_fit n [] = (n \<le> 255)"
| "names_fit n (c # cs) =
     (if c = CHR ''/'' then n \<le> 255 \<and> names_fit 0 cs else names_fit (Suc n) cs)"

definition posix_disk :: "(string \<rightharpoonup> file_content) \<Rightarrow> string \<Rightarrow> file_content \<Rightarrow> write_result" where
  "posix_disk fs fp c = (if names_fit 0 fp then Written else OpenFails)"

definition fresh :: scraper where
  "fresh = new_scraper BASE_URL OUTPUT_DIR DELAY Map.empty posix_disk"

text \<open>
  A small site. The page \<open>/arc\<close> has three anchors in its content region, to
  \<open>/arc/guide\<close>, to \<open>/arc/policies\<close> (with no anchor text) and to
  \<open>/arc/manual.pdf\<close>; the page \<open>/arc/policies\<close> has no title and no content region;
  the request for \<open>/arc/guide\<close> is answered with status 500 and the request for
  \<open>/arc/news\<close> with status 304 and an empty body; every other request raises.
\<close>

definition arc_seed :: string where
  "arc_seed = ''https://documentation.its.umich.edu/arc''"

definition arc_guide :: string where
  "arc_guide = ''https://documentation.its.umich.edu/arc/guide''"

definition arc_policies :: string where
  "arc_policies = ''https://documentation.its.umich.edu/arc/policies''"

definition arc_manual :: string where
  "arc_manual = ''https://documentation.its.umich.edu/arc/manual.pdf''"

definition arc_news :: string where
  "arc_news = ''https://documentation.its.umich.edu/arc/news''"

definition bare_soup :: soup where
  "bare_soup = \<lparr>soup_title = None, region_content = None\<rparr>"

definition arc_site :: "string \<Rightarrow> response" where
  "arc_site u =
     (if u = arc_seed
      then Response 200
             \<lparr>soup_title = Some '' ARC '',
               region_content = Some \<lparr>region_text = ''Advanced Research Computing'',
                 anchors = [(arc_guide, ''Guide''), (arc_policies, ''''),
                            (arc_manual, ''Manual'')]\<rparr>\<rparr>
      else if u = arc_policies then Response 200 bare_soup
      else if u = arc_guide then Response 500 bare_soup
      else if u = arc_news then Response 304 bare_soup
      else NoResponse)"

definition arc_page :: page_info where
  \<comment> \<open>the page record of \<open>/arc\<close>\<close>
  "arc_page = \<lparr>url = arc_seed, title = ''ARC'', content = ''Advanced Research Computing'',
      links = [\<lparr>link_url = arc_guide, link_text = ''Guide''\<rparr>,
               \<lparr>link_url = arc_policies, link_text = ''No Link Text''\<rparr>]\<rparr>"

text \<open>
  A site that is down, and \<open>n\<close> distinct listing URLs
  \<open>?page=\<close>, \<open>?page=1\<close>, \<open>?page=11\<close>, ... of the documentation.
\<close>

definition site_down :: "string \<Rightarrow> response" where
  "site_down u = NoResponse"

definition listing_urls :: "nat \<Rightarrow> string list" where
  "listing_urls n = map (\<lambda>i. BASE_URL @ ''?page='' @ replicate i (CHR ''1'')) [0..<n]"

text \<open>Two pages whose URLs differ in the scheme only.\<close>

definition http_page :: page_info where
  "http_page = \<lparr>url = ''http://documentation.its.umich.edu/arc?page=1'', title = ''Old'',
      content = ''first'', links = []\<rparr>"

definition https_page :: page_info where
  "https_page = \<lparr>url = ''https://documentation.its.umich.edu/arc?page=1'', title = ''New'',
      content = ''second'', links = []\<rparr>"

text \<open>
  A site with a hub: the page \<open>/hub\<close> links to ten topic pages; of all topic pages
  only number \<open>k\<close> is there, and it has no content region; the requests for the
  others are answered with status 404.
\<close>

definition hub :: string where
  "hub = ''https://documentation.its.umich.edu/hub''"

definition leaf :: "nat \<Rightarrow> string" where
  "leaf n = ''https://documentation.its.umich.edu/hub/t'' @ replicate n (CHR ''i'')"

definition hub_soup :: soup where
  "hub_soup = \<lparr>soup_title = Some ''Hub'',
               region_content = Some \<lparr>region_text = ''Topics'',
                 anchors = map (\<lambda>n. (leaf n, ''topic'')) [1..<11]\<rparr>\<rparr>"

definition hub_page :: page_info where
  "hub_page = \<lparr>url = hub, title = ''Hub'', content = ''Topics'',
      links = map (\<lambda>n. \<lparr>link_url = leaf n, link_text = ''topic''\<rparr>) [1..<11]\<rparr>"

definition hub_site :: "nat \<Rightarrow> string \<Rightarrow> response" where
  "hub_site k u =
     (if u = hub then Response 200 hub_soup
      else if u = leaf k then Response 200 bare_soup
      else Response 404 bare_soup)"

definition hub_state9 :: scraper where
  \<comment> \<open>on the site \<open>hub_site 9\<close>: the state after the visit of \<open>/hub\<close> and the failed
      requests for the topics 1 to 8\<close>
  "hub_state9 = fold (visit (hub_site 9)) (map leaf [1..<9])
     (next_state (crawl_iter std (hub_site 9) fresh hub [] 0))"

definition hub_state10 :: scraper where
  \<comment> \<open>and the state after the tenth visit, of topic 9\<close>
  "hub_state10 = next_state (crawl_iter std (hub_site 9) hub_state9 (leaf 9) [leaf 10] 9)"

text \<open>
  The output directory and the page store after the crawl of the small site from
  \<open>/arc\<close>, and the page of the root of the documentation site, whose URL has an
  empty path.
\<close>

definition policies_page :: page_info where
  \<comment> \<open>the page record of \<open>/arc/policies\<close>\<close>
  "policies_page = \<lparr>url = arc_policies, title = ''No Title'', content = '''', links = []\<rparr>"

definition arc_listing :: "string list" where
  \<comment> \<open>the output directory after the crawl of \<open>arc_site\<close> from \<open>/arc\<close>\<close>
  "arc_listing = [''_arc.json'', ''link_map.json'', ''_arc_policies.json'', ''visited_urls.json'']"

definition arc_store :: "(string \<times> page_info) list" where
  "arc_store = [(arc_seed, arc_page), (arc_policies, policies_page)]"

definition root_page :: page_info where
  \<comment> \<open>the page record of the root of the site\<close>
  "root_page = \<lparr>url = ''https://documentation.its.umich.edu'', title = ''Documentation'',
      content = ''Welcome'', links = []\<rparr>"

section \<open>Evaluation of the library model on concrete URLs\<close>

lemmas std_eval =
  std_def std_urlparse_def std_urljoin_def split_scheme_def splitnetloc_def split_first_def
  splitparams_def uses_params_def ascii_alpha_def ascii_lower_def scheme_chars_def

lemmas str_eval =
  endswith_def isspace_def strip_def replace_char_def isalnum_def safe_char_def
  re_sub_unsafe_def DOC_HOST_def NON_HTML_EXTS_def

section \<open>The URL classifier rejects by the suffix of the URL string\<close>

lemma is_valid_url_True_iff:
  "is_valid_url L u = Inr True \<longleftrightarrow>
     (\<exists>p. urlparse L u = Inr p \<and> str_in DOC_HOST (netloc p))
     \<and> \<not> list_ex (\<lambda>ext. endswith u ext) NON_HTML_EXTS"
  by (auto simp: is_valid_url_def split: sum.splits)

text \<open>
  C5, as the code has it. \<open>is_valid_url\<close> compares the whole URL string, not the path
  of the parsed URL, and compares it as it is, with no case folding: a URL string that
  ends in one of \<open>.pdf .doc .docx .jpg .png .gif\<close> is never accepted, and is rejected
  with \<open>False\<close> whenever the URL parses.
\<close>

theorem is_valid_url_rejects_suffix:
  assumes "ext \<in> set NON_HTML_EXTS" and "endswith u ext"
  shows "is_valid_url L u = (case urlparse L u of Inl e \<Rightarrow> Inl e | Inr p \<Rightarrow> Inr False)"
proof -
  from assms have "list_ex (\<lambda>x. endswith u x) NON_HTML_EXTS"
    unfolding list_ex_iff by blast
  then show ?thesis
    by (simp add: is_valid_url_def split: sum.splits)
qed

theorem is_valid_url_rejects_suffix_witness:
  "''.pdf'' \<in> set NON_HTML_EXTS
   \<and> endswith ''https://documentation.its.umich.edu/guide.pdf'' ''.pdf''
   \<and> is_valid_url std ''https://documentation.its.umich.edu/guide.pdf'' = Inr False"
proof -
  have a: "''.pdf'' \<in> set NON_HTML_EXTS"
    by (simp add: NON_HTML_EXTS_def)
  have b: "endswith ''https://documentation.its.umich.edu/guide.pdf'' ''.pdf''"
    by (simp add: endswith_def)
  have c: "urlparse std ''https://documentation.its.umich.edu/guide.pdf''
      = Inr \<lparr>scheme = ''https'', netloc = ''documentation.its.umich.edu'',
              path = ''/guide.pdf'', params = '''', query = '''', fragment = ''''\<rparr>"
    by (simp add: std_eval)
  show ?thesis
    using is_valid_url_rejects_suffix [OF a b, of std] a b by (simp add: c)
qed

text \<open>
  C5 as the specification states it fails twice. The path \<open>/guide.PDF\<close> ends in
  \<open>pdf\<close> up to case, and the path \<open>/guide.pdf\<close> of a URL with a query ends in
  \<open>pdf\<close>; both URLs are accepted.
\<close>

theorem is_valid_url_path_extension_counterexample:
  "urlparse std ''https://documentation.its.umich.edu/guide.PDF''
     = Inr \<lparr>scheme = ''https'', netloc = ''documentation.its.umich.edu'',
             path = ''/guide.PDF'', params = '''', query = '''', fragment = ''''\<rparr>
   \<and> endswith (map ascii_lower ''/guide.PDF'') ''.pdf''
   \<and> is_valid_url std ''https://documentation.its.umich.edu/guide.PDF'' = Inr True
   \<and> urlparse std ''https://documentation.its.umich.edu/guide.pdf?download=1''
     = Inr \<lparr>scheme = ''https'', netloc = ''documentation.its.umich.edu'',
             path = ''/guide.pdf'', params = '''', query = ''download=1'', fragment = ''''\<rparr>
   \<and> endswith ''/guide.pdf'' ''.pdf''
   \<and> is_valid_url std ''https://documentation.its.umich.edu/guide.pdf?download=1'' = Inr True"
  by (simp add: is_valid_url_def std_eval str_eval)

section \<open>What each operation leaves unchanged\<close>

lemma gets_simps [simp]:
  "gets [] = []"
  "gets (tr @ tr') = gets tr @ gets tr'"
  "gets (Get u # tr) = u # gets tr"
  "gets (Mark u # tr) = gets tr"
  "gets (Write fp fc # tr) = gets tr"
  "gets (Sleep n # tr) = gets tr"
  by (simp_all add: gets_def)

lemma visited_snapshots_simps [simp]:
  "visited_snapshots [] = []"
  "visited_snapshots (tr @ tr') = visited_snapshots tr @ visited_snapshots tr'"
  "visited_snapshots (Get u # tr) = visited_snapshots tr"
  "visited_snapshots (Mark u # tr) = visited_snapshots tr"
  "visited_snapshots (Sleep n # tr) = visited_snapshots tr"
  "visited_snapshots (Write fp (PageFile p) # tr) = visited_snapshots tr"
  "visited_snapshots (Write fp (LinkMapFile lm) # tr) = visited_snapshots tr"
  "visited_snapshots (Write fp (VisitedFile V) # tr) = V # visited_snapshots tr"
  "visited_snapshots (Write fp (IndexFile n ix) # tr) = visited_snapshots tr"
  "visited_snapshots (Write fp Truncated # tr) = visited_snapshots tr"
  by (simp_all add: visited_snapshots_def)

lemma wrote_only_refl [simp]: "wrote_only s s"
  by (simp add: wrote_only_def)

lemma wrote_only_trans: "wrote_only s s1 \<Longrightarrow> wrote_only s1 s2 \<Longrightarrow> wrote_only s s2"
  by (simp add: wrote_only_def)

lemma wrote_only_fields:
  assumes "wrote_only s s'"
  shows "visited_urls s' = visited_urls s" "pages s' = pages s" "link_map s' = link_map s"
    "output_dir s' = output_dir s" "delay s' = delay s" "base_url s' = base_url s"
    "disk s' = disk s" "gets (trace s') = gets (trace s)"
  using assms by (simp_all add: wrote_only_def)

lemma write_file_Inr:
  assumes "write_file fp c s = Inr s'"
  shows "s' = s\<lparr>files := (files s)(fp \<mapsto> c), trace := trace s @ [Write fp c]\<rparr>"
  using assms by (simp add: write_file_def split: write_result.splits)

lemma write_file_Inl:
  assumes "write_file fp c s = Inl (e, s')"
  shows "e = OSError \<and> wrote_only s s'
     \<and> visited_snapshots (trace s') = visited_snapshots (trace s)"
  using assms by (auto simp: write_file_def wrote_only_def split: write_result.splits)

lemma write_file_wrote_only:
  "write_file fp c s = Inr s' \<Longrightarrow> wrote_only s s'"
  by (auto simp: write_file_def wrote_only_def split: write_result.splits)

lemma sleep_fields [simp]:
  "visited_urls (sleep d s) = visited_urls s"
  "pages (sleep d s) = pages s"
  "link_map (sleep d s) = link_map s"
  "output_dir (sleep d s) = output_dir s"
  "delay (sleep d s) = delay s"
  "base_url (sleep d s) = base_url s"
  "files (sleep d s) = files s"
  "disk (sleep d s) = disk s"
  "trace (sleep d s) = trace s @ [Sleep d]"
  by (simp_all add: sleep_def)

lemma save_progress_Inr:
  assumes "save_progress s = Inr s'"
  shows "s' = s\<lparr>files := (files s)
                  (os_path_join (output_dir s) ''link_map.json'' \<mapsto> LinkMapFile (link_map s),
                   os_path_join (output_dir s) ''visited_urls.json'' \<mapsto> VisitedFile (visited_urls s)),
               trace := trace s @
                 [Write (os_path_join (output_dir s) ''link_map.json'') (LinkMapFile (link_map s)),
                  Write (os_path_join (output_dir s) ''visited_urls.json'')
                    (VisitedFile (visited_urls s))]\<rparr>"
proof -
  from assms obtain s1 where
    a: "write_file (os_path_join (output_dir s) ''link_map.json'') (LinkMapFile (link_map s)) s
          = Inr s1"
    and b: "write_file (os_path_join (output_dir s1) ''visited_urls.json'')
          (VisitedFile (visited_urls s1)) s1 = Inr s'"
    by (auto simp: save_progress_def split: sum.splits simp del: os_path_join.simps)
  show ?thesis
    unfolding write_file_Inr [OF b] write_file_Inr [OF a]
    by (simp del: os_path_join.simps)
qed

lemma save_progress_fields:
  assumes "save_progress s = Inr s'"
  shows "visited_urls s' = visited_urls s" "pages s' = pages s" "link_map s' = link_map s"
    "output_dir s' = output_dir s" "delay s' = delay s" "base_url s' = base_url s"
    "disk s' = disk s" "gets (trace s') = gets (trace s)"
    "visited_snapshots (trace s') = visited_snapshots (trace s) @ [visited_urls s]"
  unfolding save_progress_Inr [OF assms] by (simp_all del: os_path_join.simps)

lemma save_progress_wrote_only:
  "save_progress s = Inr s' \<Longrightarrow> wrote_only s s'"
  using save_progress_fields [of s s'] by (simp add: wrote_only_def)

lemma save_progress_Inl:
  assumes "save_progress s = Inl (e, s')"
  shows "e = OSError \<and> wrote_only s s'
     \<and> visited_snapshots (trace s') = visited_snapshots (trace s)"
proof (cases "write_file (os_path_join (output_dir s) ''link_map.json'') (LinkMapFile (link_map s)) s")
  case (Inl r)
  with assms have "write_file (os_path_join (output_dir s) ''link_map.json'')
      (LinkMapFile (link_map s)) s = Inl (e, s')"
    by (simp add: save_progress_def del: os_path_join.simps)
  then show ?thesis
    by (rule write_file_Inl)
next
  case (Inr s1)
  with assms have b: "write_file (os_path_join (output_dir s1) ''visited_urls.json'')
      (VisitedFile (visited_urls s1)) s1 = Inl (e, s')"
    by (simp add: save_progress_def del: os_path_join.simps)
  have "visited_snapshots (trace s1) = visited_snapshots (trace s)"
    unfolding write_file_Inr [OF Inr] by simp
  with write_file_Inl [OF b] write_file_wrote_only [OF Inr] show ?thesis
    by (auto intro: wrote_only_trans)
qed

lemma os_path_join_checkpoints_differ:
  "os_path_join out ''link_map.json'' \<noteq> os_path_join out ''visited_urls.json''"
  by simp

lemma save_progress_files:
  assumes "save_progress s = Inr s'"
  shows "files s' (os_path_join (output_dir s') ''link_map.json'') = Some (LinkMapFile (link_map s'))"
    and "files s' (os_path_join (output_dir s') ''visited_urls.json'')
           = Some (VisitedFile (visited_urls s'))"
  using os_path_join_checkpoints_differ [of "output_dir s"]
  unfolding save_progress_Inr [OF assms]
  by (simp_all del: os_path_join.simps)

lemma save_page_path:
  assumes "urlparse L (url p) = Inr r"
  shows "save_page L s p =
     (case write_file (page_path (output_dir s) (path r) (query r)) (PageFile p) s of
        Inl raised \<Rightarrow> Inl raised
      | Inr s' \<Rightarrow> Inr (page_path (output_dir s) (path r) (query r), s'))"
  using assms
  by (auto simp add: save_page_def page_path_def Let_def simp del: os_path_join.simps
           split: sum.splits)

lemma save_page_fields:
  assumes "save_page L s page = Inr (fp, s')"
  shows "visited_urls s' = visited_urls s" "pages s' = pages s" "link_map s' = link_map s"
    "output_dir s' = output_dir s" "delay s' = delay s" "base_url s' = base_url s"
    "files s' = (files s)(fp \<mapsto> PageFile page)"
    "trace s' = trace s @ [Write fp (PageFile page)]"
    "disk s' = disk s"
proof -
  from assms obtain r where r: "urlparse L (url page) = Inr r"
    by (auto simp: save_page_def split: sum.splits)
  from assms have "write_file fp (PageFile page) s = Inr s'"
    unfolding save_page_path [OF r] by (auto split: sum.splits)
  then have s': "s' = s\<lparr>files := (files s)(fp \<mapsto> PageFile page),
                          trace := trace s @ [Write fp (PageFile page)]\<rparr>"
    by (rule write_file_Inr)
  show "visited_urls s' = visited_urls s" "pages s' = pages s" "link_map s' = link_map s"
    "output_dir s' = output_dir s" "delay s' = delay s" "base_url s' = base_url s"
    "files s' = (files s)(fp \<mapsto> PageFile page)"
    "trace s' = trace s @ [Write fp (PageFile page)]"
    "disk s' = disk s"
    by (simp_all add: s')
qed

lemma save_page_Inl:
  assumes "save_page L s page = Inl (e, s')"
  shows "wrote_only s s' \<and> visited_snapshots (trace s') = visited_snapshots (trace s)"
proof (cases "urlparse L (url page)")
  case (Inl e')
  with assms show ?thesis
    by (simp add: save_page_def)
next
  case (Inr r)
  from assms have "write_file (page_path (output_dir s) (path r) (query r)) (PageFile page) s
      = Inl (e, s')"
    unfolding save_page_path [OF Inr] by (auto split: sum.splits)
  from write_file_Inl [OF this] show ?thesis by simp
qed

lemma add_links_fields [simp]:
  "visited_urls (fst (add_links u ls s q)) = visited_urls s"
  "pages (fst (add_links u ls s q)) = pages s"
  "output_dir (fst (add_links u ls s q)) = output_dir s"
  "delay (fst (add_links u ls s q)) = delay s"
  "base_url (fst (add_links u ls s q)) = base_url s"
  "files (fst (add_links u ls s q)) = files s"
  "disk (fst (add_links u ls s q)) = disk s"
  "trace (fst (add_links u ls s q)) = trace s"
  by (induction u ls s q rule: add_links.induct; simp add: Let_def)+

lemma add_links_Cons:
  "add_links u (l # ls) s q =
     add_links u ls (s\<lparr>link_map := lm_step u (link_url l) (link_map s)\<rparr>) (q_step s q (link_url l))"
  by (simp add: lm_step_def q_step_def Let_def)

text \<open>
  For evaluation the loop over the links is unfolded link by link, with the two
  statements of its body as \<open>q_step\<close> and \<open>lm_step\<close>.
\<close>

lemmas add_links_code [code] = add_links.simps(1) add_links_Cons

lemma map_of_lm_step:
  "map_of (lm_step u lu lm) v =
     (if v = u then Some ((case map_of lm u of None \<Rightarrow> [] | Some old \<Rightarrow> old) @ [lu])
      else map_of lm v)"
  by (simp add: lm_step_def Let_def update_conv' split: option.splits)

lemma add_links_link_map:
  "map_of (link_map (fst (add_links u ls s q))) v =
     (if v = u \<and> ls \<noteq> []
      then Some ((case map_of (link_map s) u of None \<Rightarrow> [] | Some old \<Rightarrow> old) @ map link_url ls)
      else map_of (link_map s) v)"
proof (induction ls arbitrary: s q)
  case Nil
  show ?case by simp
next
  case (Cons l ls)
  show ?case
    unfolding add_links_Cons Cons.IH
    by (simp add: map_of_lm_step)
qed

lemma q_step_append:
  "\<exists>new. q_step s q lu = q @ new \<and> set new \<inter> (visited_urls s \<union> set q) = {}
     \<and> distinct new \<and> set new \<subseteq> {lu}"
  by (auto simp: q_step_def)

lemma add_links_queue:
  "\<exists>new. snd (add_links u ls s q) = q @ new
     \<and> set new \<inter> (visited_urls s \<union> set q) = {} \<and> distinct new
     \<and> set new \<subseteq> link_url ` set ls"
proof (induction ls arbitrary: s q)
  case Nil
  show ?case by simp
next
  case (Cons l ls)
  obtain n1 where n1: "q_step s q (link_url l) = q @ n1"
    "set n1 \<inter> (visited_urls s \<union> set q) = {}" "distinct n1" "set n1 \<subseteq> {link_url l}"
    using q_step_append by blast
  let ?s = "s\<lparr>link_map := lm_step u (link_url l) (link_map s)\<rparr>"
  obtain n2 where n2: "snd (add_links u ls ?s (q @ n1)) = (q @ n1) @ n2"
    "set n2 \<inter> (visited_urls ?s \<union> set (q @ n1)) = {}" "distinct n2"
    "set n2 \<subseteq> link_url ` set ls"
    using Cons.IH [of ?s "q @ n1"] by blast
  have "snd (add_links u (l # ls) s q) = q @ (n1 @ n2)"
    unfolding add_links_Cons n1(1) n2(1) by simp
  moreover have "set (n1 @ n2) \<inter> (visited_urls s \<union> set q) = {}"
    using n1(2) n2(2) by auto
  moreover have "distinct (n1 @ n2)"
    using n1(3) n2(2,3) by auto
  moreover have "set (n1 @ n2) \<subseteq> link_url ` set (l # ls)"
    using n1(4) n2(4) by auto
  ultimately show ?case by blast
qed

section \<open>The body of the loop, case by case\<close>

lemma get_soup_eq: "get_soup F u s = (fetched F u, s\<lparr>trace := trace s @ [Get u]\<rparr>)"
  by (cases "F u") (simp_all add: get_soup_def fetched_def Let_def)

lemma fetched_None_iff:
  "fetched F u = None \<longleftrightarrow>
     F u = NoResponse \<or> (\<exists>status sp. F u = Response status sp \<and> 400 \<le> status \<and> status < 600)"
proof (cases "F u")
  case NoResponse
  then show ?thesis by (simp add: fetched_def)
next
  case (Response status sp)
  then show ?thesis by (cases "400 \<le> status \<and> status < 600") (simp_all add: fetched_def)
qed

lemma visit_fields [simp]:
  "visited_urls (visit F u s) = insert u (visited_urls s)"
  "pages (visit F u s) = pages s"
  "link_map (visit F u s) = link_map s"
  "output_dir (visit F u s) = output_dir s"
  "delay (visit F u s) = delay s"
  "base_url (visit F u s) = base_url s"
  "files (visit F u s) = files s"
  "disk (visit F u s) = disk s"
  "trace (visit F u s) = trace s @ [Mark u, Get u]"
  by (simp_all add: visit_def get_soup_eq)

lemma iter_finish_eq:
  "iter_finish p c1 =
     (if c1 mod 10 = 0
      then (case save_progress (fst p) of
              Inl (e, s5') \<Rightarrow> Raised s5' e
            | Inr s6 \<Rightarrow> Next (sleep (delay s6) s6) (snd p) c1)
      else Next (sleep (delay (fst p)) (fst p)) (snd p) c1)"
  by (cases p) (simp split: sum.splits)

lemma crawl_iter_unfold:
  "crawl_iter L F s u q0 c =
     (if u \<in> visited_urls s then Next s q0 c
      else case fetched F u of
        None \<Rightarrow> Next (visit F u s) q0 (c + 1)
      | Some sp \<Rightarrow>
          (case extract_page_info L sp u of
             Inl e \<Rightarrow> Raised (visit F u s) e
           | Inr page \<Rightarrow>
               (case save_page L ((visit F u s)\<lparr>pages := AList.update u page (pages s)\<rparr>) page of
                  Inl (e, s3') \<Rightarrow> Raised s3' e
                | Inr (fp, s4) \<Rightarrow> iter_finish (add_links u (links page) s4 q0) (c + 1))))"
  by (simp add: crawl_iter_def get_soup_eq visit_def Let_def split_beta iter_finish_eq
           del: iter_finish.simps
           split: option.splits sum.splits prod.splits)

declare crawl_iter_unfold [code]

lemma iter_finish_Next:
  assumes "iter_finish (s5, q1) c1 = Next s' q' c'"
  shows "q' = q1 \<and> c' = c1
     \<and> (\<exists>s6. s' = sleep (delay s5) s6 \<and> wrote_only s5 s6
           \<and> (if c1 mod 10 = 0 then save_progress s5 = Inr s6 else s6 = s5))"
proof (cases "c1 mod 10 = 0")
  case False
  with assms show ?thesis by auto
next
  case True
  with assms obtain s6 where s6: "save_progress s5 = Inr s6" "s' = sleep (delay s6) s6"
    "q' = q1" "c' = c1"
    by (auto split: sum.splits)
  with True save_progress_wrote_only [OF s6(1)] save_progress_fields(5) [OF s6(1)]
  show ?thesis by auto
qed

lemma iter_finish_Raised:
  assumes "iter_finish (s5, q1) c1 = Raised s' e"
  shows "c1 mod 10 = 0 \<and> save_progress s5 = Inl (e, s')"
  using assms by (auto split: if_splits sum.splits)

lemma crawl_iter_cases [consumes 1, case_names skip failed fetched]:
  assumes "crawl_iter L F s u q0 c = Next s' q' c'"
  obtains
    (skip) "u \<in> visited_urls s" "s' = s" "q' = q0" "c' = c"
  | (failed) "u \<notin> visited_urls s" "fetched F u = None" "s' = visit F u s" "q' = q0"
      "c' = c + 1"
  | (fetched) sp page fp s4 s5 s6 where
      "u \<notin> visited_urls s" "fetched F u = Some sp" "extract_page_info L sp u = Inr page"
      "save_page L ((visit F u s)\<lparr>pages := AList.update u page (pages s)\<rparr>) page = Inr (fp, s4)"
      "add_links u (links page) s4 q0 = (s5, q')"
      "s' = sleep (delay s) s6"
      "c' = c + 1"
      "if (c + 1) mod 10 = 0 then save_progress s5 = Inr s6 else s6 = s5"
      "wrote_only s5 s6"
proof (cases "u \<in> visited_urls s")
  case True
  with assms show ?thesis
    by (intro skip) (simp_all add: crawl_iter_unfold)
next
  case nv: False
  show ?thesis
  proof (cases "fetched F u")
    case None
    with assms nv show ?thesis
      by (intro failed) (simp_all add: crawl_iter_unfold)
  next
    case (Some sp)
    from assms nv Some obtain page where page: "extract_page_info L sp u = Inr page"
      by (auto simp: crawl_iter_unfold split: sum.splits)
    let ?s3 = "(visit F u s)\<lparr>pages := AList.update u page (pages s)\<rparr>"
    from assms nv Some page obtain fp s4 where sv: "save_page L ?s3 page = Inr (fp, s4)"
      by (auto simp: crawl_iter_unfold split: sum.splits)
    obtain s5 q1 where al: "add_links u (links page) s4 q0 = (s5, q1)"
      by (cases "add_links u (links page) s4 q0") auto
    have d5: "delay s5 = delay s"
      using add_links_fields(4) [of u "links page" s4 q0] save_page_fields(5) [OF sv]
      by (simp add: al)
    from assms nv Some page sv al have "iter_finish (s5, q1) (c + 1) = Next s' q' c'"
      by (simp add: crawl_iter_unfold)
    from iter_finish_Next [OF this] obtain s6 where
      "q' = q1" "c' = c + 1" "s' = sleep (delay s5) s6" "wrote_only s5 s6"
      "if (c + 1) mod 10 = 0 then save_progress s5 = Inr s6 else s6 = s5"
      by blast
    with nv Some page sv al d5 show ?thesis
      by (intro fetched [of sp page fp s4 s5 s6]) simp_all
  qed
qed

lemma crawl_iter_raised:
  assumes "crawl_iter L F s u q0 c = Raised s' e"
  shows "u \<notin> visited_urls s \<and> fetched F u \<noteq> None
     \<and> visited_urls s' = insert u (visited_urls s)
     \<and> gets (trace s') = gets (trace s) @ [u]"
proof -
  from assms have nv: "u \<notin> visited_urls s"
    by (auto simp: crawl_iter_unfold split: if_splits)
  from assms nv obtain sp where sp: "fetched F u = Some sp"
    by (cases "fetched F u") (auto simp: crawl_iter_unfold)
  show ?thesis
  proof (cases "extract_page_info L sp u")
    case (Inl e')
    with assms nv sp have "s' = visit F u s"
      by (simp add: crawl_iter_unfold)
    with nv sp show ?thesis by simp
  next
    case (Inr page)
    let ?s3 = "(visit F u s)\<lparr>pages := AList.update u page (pages s)\<rparr>"
    show ?thesis
    proof (cases "save_page L ?s3 page")
      case (Inl r)
      with assms nv sp Inr have "save_page L ?s3 page = Inl (e, s')"
        by (cases r) (simp add: crawl_iter_unfold)
      from save_page_Inl [OF this] have "wrote_only ?s3 s'" by simp
      from wrote_only_fields(1,8) [OF this] nv sp show ?thesis by simp
    next
      case sv: (Inr r)
      obtain fp s4 where r: "r = (fp, s4)" by (cases r)
      obtain s5 q1 where al: "add_links u (links page) s4 q0 = (s5, q1)"
        by (cases "add_links u (links page) s4 q0") auto
      from assms nv sp Inr sv r al have "iter_finish (s5, q1) (c + 1) = Raised s' e"
        by (simp add: crawl_iter_unfold)
      from iter_finish_Raised [OF this] have "save_progress s5 = Inl (e, s')" by simp
      from save_progress_Inl [OF this] have w: "wrote_only s5 s'" by simp
      have s5: "s5 = fst (add_links u (links page) s4 q0)"
        using al by simp
      have "visited_urls s5 = insert u (visited_urls s)" "gets (trace s5) = gets (trace s) @ [u]"
        using save_page_fields(1,8) [OF sv [unfolded r]] by (simp_all add: s5)
      with wrote_only_fields(1,8) [OF w] nv sp show ?thesis by simp
    qed
  qed
qed

lemma crawl_loop_reach_aux:
  "loop_reach L F M k (s, q, c) \<Longrightarrow> crawl_loop L F M s q c = (s', None)
   \<Longrightarrow> \<exists>q' c'. loop_reach L F M k (s', q', c') \<and> (q' = [] \<or> \<not> c' < M)"
proof (induction L F M s q c rule: crawl_loop.induct)
  case (1 L F M s q c)
  show ?case
  proof (cases q)
    case Nil
    with "1.prems" show ?thesis by (auto simp: crawl_loop.simps)
  next
    case (Cons u q0)
    show ?thesis
    proof (cases "c < M")
      case False
      with "1.prems" Cons show ?thesis by (auto simp: crawl_loop.simps)
    next
      case True
      show ?thesis
      proof (cases "crawl_iter L F s u q0 c")
        case (Raised s1 e)
        with "1.prems" Cons True show ?thesis by (simp add: crawl_loop.simps)
      next
        case (Next s1 q1 c1)
        have r: "loop_reach L F M k (s1, q1, c1)"
          using "1.prems"(1) Cons True Next by (auto intro: loop_reach.iter)
        have "crawl_loop L F M s1 q1 c1 = (s', None)"
          using "1.prems"(2) Cons True Next by (simp add: crawl_loop.simps)
        from "1.IH" [OF Cons True Next r this] show ?thesis .
      qed
    qed
  qed
qed

section \<open>How a run of the loop ends\<close>

lemma crawl_loop_raised_aux:
  "loop_reach L F M k (s, q, c) \<Longrightarrow> crawl_loop L F M s q c = (s', Some e)
   \<Longrightarrow> \<exists>s1 u q1 c1. loop_reach L F M k (s1, u # q1, c1) \<and> c1 < M
         \<and> crawl_iter L F s1 u q1 c1 = Raised s' e"
proof (induction L F M s q c rule: crawl_loop.induct)
  case (1 L F M s q c)
  show ?case
  proof (cases q)
    case Nil
    with "1.prems" show ?thesis by (auto simp: crawl_loop.simps)
  next
    case (Cons u q0)
    show ?thesis
    proof (cases "c < M")
      case False
      with "1.prems" Cons show ?thesis by (auto simp: crawl_loop.simps)
    next
      case True
      show ?thesis
      proof (cases "crawl_iter L F s u q0 c")
        case (Raised s1 e1)
        with "1.prems" Cons True show ?thesis by (auto simp: crawl_loop.simps)
      next
        case (Next s1 q1 c1)
        have r: "loop_reach L F M k (s1, q1, c1)"
          using "1.prems"(1) Cons True Next by (auto intro: loop_reach.iter)
        have "crawl_loop L F M s1 q1 c1 = (s', Some e)"
          using "1.prems"(2) Cons True Next by (simp add: crawl_loop.simps)
        from "1.IH" [OF Cons True Next r this] show ?thesis .
      qed
    qed
  qed
qed

lemma crawl_loop_normal:
  assumes "crawl_loop L F M s q c = (s', None)"
  shows "\<exists>q' c'. loop_reach L F M (s, q, c) (s', q', c') \<and> (q' = [] \<or> \<not> c' < M)"
  using crawl_loop_reach_aux [OF loop_reach.start assms] .

lemma crawl_loop_raised:
  assumes "crawl_loop L F M s q c = (s', Some e)"
  shows "\<exists>s1 u q1 c1. loop_reach L F M (s, q, c) (s1, u # q1, c1) \<and> c1 < M
         \<and> crawl_iter L F s1 u q1 c1 = Raised s' e"
  using crawl_loop_raised_aux [OF loop_reach.start assms] .

lemma crawl_normal:
  assumes "snd (crawl L F M s start_url) = None"
  shows "\<exists>s1 q' c'. loop_reach L F M (s, initial_frontier s start_url, 0) (s1, q', c')
          \<and> (q' = [] \<or> \<not> c' < M) \<and> save_progress s1 = Inr (fst (crawl L F M s start_url))"
proof -
  obtain s1 r where l: "crawl_loop L F M s (initial_frontier s start_url) 0 = (s1, r)"
    by (cases "crawl_loop L F M s (initial_frontier s start_url) 0") auto
  with assms have r: "r = None"
    by (cases r) (simp_all add: crawl_def)
  from assms l r have "save_progress s1 = Inr (fst (crawl L F M s start_url))"
    by (auto simp: crawl_def split: sum.splits)
  with crawl_loop_normal [of L F M s "initial_frontier s start_url" 0 s1] l r
  show ?thesis by blast
qed

lemma crawl_raised [consumes 1, case_names in_loop at_end]:
  assumes "snd (crawl L F M s start_url) = Some e"
  obtains
    (in_loop) s1 u q1 c1 where
      "loop_reach L F M (s, initial_frontier s start_url, 0) (s1, u # q1, c1)" "c1 < M"
      "crawl_iter L F s1 u q1 c1 = Raised (fst (crawl L F M s start_url)) e"
  | (at_end) s1 q' c' where
      "loop_reach L F M (s, initial_frontier s start_url, 0) (s1, q', c')"
      "q' = [] \<or> \<not> c' < M"
      "save_progress s1 = Inl (e, fst (crawl L F M s start_url))"
proof -
  obtain s1 r where l: "crawl_loop L F M s (initial_frontier s start_url) 0 = (s1, r)"
    by (cases "crawl_loop L F M s (initial_frontier s start_url) 0") auto
  show ?thesis
  proof (cases r)
    case (Some e')
    with assms l have "e' = e" "fst (crawl L F M s start_url) = s1"
      by (simp_all add: crawl_def)
    with crawl_loop_raised [of L F M s "initial_frontier s start_url" 0 s1 e] l Some
    show ?thesis by (auto intro: in_loop)
  next
    case None
    with assms l have "save_progress s1 = Inl (e, fst (crawl L F M s start_url))"
      by (auto simp: crawl_def split: sum.splits)
    with crawl_loop_normal [of L F M s "initial_frontier s start_url" 0 s1] l None
    show ?thesis by (auto intro: at_end)
  qed
qed

lemma crawl_end [consumes 0, case_names normal in_loop at_end]:
  obtains
    (normal) s1 q' c' where
      "snd (crawl L F M s start_url) = None"
      "loop_reach L F M (s, initial_frontier s start_url, 0) (s1, q', c')"
      "q' = [] \<or> \<not> c' < M"
      "save_progress s1 = Inr (fst (crawl L F M s start_url))"
  | (in_loop) e s1 u q1 c1 where
      "snd (crawl L F M s start_url) = Some e"
      "loop_reach L F M (s, initial_frontier s start_url, 0) (s1, u # q1, c1)" "c1 < M"
      "crawl_iter L F s1 u q1 c1 = Raised (fst (crawl L F M s start_url)) e"
  | (at_end) e s1 q' c' where
      "snd (crawl L F M s start_url) = Some e"
      "loop_reach L F M (s, initial_frontier s start_url, 0) (s1, q', c')"
      "q' = [] \<or> \<not> c' < M"
      "save_progress s1 = Inl (e, fst (crawl L F M s start_url))"
proof (cases "snd (crawl L F M s start_url)")
  case None
  from crawl_normal [OF None] show ?thesis
    using None by (auto intro: normal)
next
  case (Some e)
  from Some show ?thesis
    by (cases rule: crawl_raised) (auto intro: in_loop at_end simp: Some)
qed

section \<open>The visited set and the page counter\<close>

lemma loop_reach_counter:
  assumes "loop_reach L F M k k'" and "finite (visited_urls (fst k))"
  shows "finite (visited_urls (fst k')) \<and> snd (snd k) \<le> snd (snd k')
     \<and> card (visited_urls (fst k')) = card (visited_urls (fst k)) + (snd (snd k') - snd (snd k))
     \<and> visited_urls (fst k) \<subseteq> visited_urls (fst k')"
  using assms
proof (induction rule: loop_reach.induct)
  case start
  then show ?case by simp
next
  case (iter s u q0 c s' q' c')
  from iter.hyps(3) show ?case
  proof (cases rule: crawl_iter_cases)
    case skip
    with iter show ?thesis by simp
  next
    case failed
    with iter show ?thesis by auto
  next
    case (fetched sp page fp s4 s5 s6)
    have "visited_urls s5 = visited_urls s4"
      using add_links_fields(1) [of u "links page" s4 q0] fetched(5) by simp
    then have "visited_urls s' = insert u (visited_urls s)"
      using fetched(6) save_page_fields(1) [OF fetched(4)] wrote_only_fields(1) [OF fetched(9)]
      by simp
    with iter fetched(1,7) show ?thesis by auto
  qed
qed

lemma loop_reach_counter_le:
  assumes "loop_reach L F M k k'" and "snd (snd k) \<le> M"
  shows "snd (snd k') \<le> M"
  using assms
proof (induction rule: loop_reach.induct)
  case start
  then show ?case by simp
next
  case (iter s u q0 c s' q' c')
  with crawl_iter_counter [OF iter.hyps(3)] show ?case by auto
qed

lemma crawl_visited_card:
  assumes "finite (visited_urls s)"
  shows "finite (visited_urls (fst (crawl L F M s start_url)))
     \<and> card (visited_urls (fst (crawl L F M s start_url))) \<le> card (visited_urls s) + M
     \<and> visited_urls s \<subseteq> visited_urls (fst (crawl L F M s start_url))"
proof (cases rule: crawl_end [of L F M s start_url])
  case (normal s1 q' c')
  from save_progress_fields(1) [OF normal(4)]
    loop_reach_counter [OF normal(2)] loop_reach_counter_le [OF normal(2)] assms
  show ?thesis by simp
next
  case (at_end e s1 q' c')
  from save_progress_Inl [OF at_end(4)]
  have "visited_urls (fst (crawl L F M s start_url)) = visited_urls s1"
    by (simp add: wrote_only_def)
  with loop_reach_counter [OF at_end(2)] loop_reach_counter_le [OF at_end(2)] assms
  show ?thesis by simp
next
  case (in_loop e s1 u q1 c1)
  from crawl_iter_raised [OF in_loop(4)]
  have v: "visited_urls (fst (crawl L F M s start_url)) = insert u (visited_urls s1)"
    and nv: "u \<notin> visited_urls s1"
    by auto
  from loop_reach_counter [OF in_loop(2)] assms
  have "finite (visited_urls s1)" "card (visited_urls s1) = card (visited_urls s) + c1"
    "visited_urls s \<subseteq> visited_urls s1"
    by simp_all
  with v nv in_loop(3) show ?thesis by auto
qed

lemma crawl_seeds_visited_card:
  assumes "finite (visited_urls s)"
  shows "finite (visited_urls (fst (crawl_seeds L F M s seeds)))
     \<and> card (visited_urls (fst (crawl_seeds L F M s seeds)))
         \<le> card (visited_urls s) + length seeds * M"
  using assms
proof (induction seeds arbitrary: s)
  case Nil
  then show ?case by simp
next
  case (Cons seed seeds)
  let ?s1 = "fst (crawl L F M s (Some seed))"
  from crawl_visited_card [OF Cons.prems, of L F M "Some seed"]
  have f1: "finite (visited_urls ?s1)"
    and c1: "card (visited_urls ?s1) \<le> card (visited_urls s) + M"
    by simp_all
  show ?case
  proof (cases "snd (crawl L F M s (Some seed))")
    case None
    then have "crawl_seeds L F M s (seed # seeds) = crawl_seeds L F M ?s1 seeds"
      by (cases "crawl L F M s (Some seed)") simp
    with Cons.IH [OF f1] c1 show ?thesis by simp
  next
    case (Some e)
    then have "fst (crawl_seeds L F M s (seed # seeds)) = ?s1"
      by (cases "crawl L F M s (Some seed)") simp
    with f1 c1 show ?thesis by simp
  qed
qed

section \<open>Seeds that cannot be fetched\<close>

lemma save_progress_writable:
  assumes "checkpoints_writable s"
  shows "\<exists>s'. save_progress s = Inr s'"
  using assms
  by (simp add: checkpoints_writable_def save_progress_def write_file_def
           del: os_path_join.simps)

lemma crawl_failed_seed:
  assumes "fetched F u = None" and "u \<notin> visited_urls s" and "0 < M"
    and "checkpoints_writable s"
  shows "\<exists>s'. crawl L F M s (Some u) = (s', None) \<and> save_progress (visit F u s) = Inr s'"
proof -
  have i: "crawl_iter L F s u [] 0 = Next (visit F u s) [] 1"
    using assms by (simp add: crawl_iter_unfold)
  have "crawl_loop L F M s [u] 0 = crawl_loop L F M (visit F u s) [] 1"
    using assms(3) i by (subst crawl_loop.simps) simp
  also have "\<dots> = (visit F u s, None)"
    by (subst crawl_loop.simps) simp
  finally have l: "crawl_loop L F M s [u] 0 = (visit F u s, None)" .
  have "checkpoints_writable (visit F u s)"
    using assms(4) by (simp add: checkpoints_writable_def del: os_path_join.simps)
  from save_progress_writable [OF this] obtain s' where "save_progress (visit F u s) = Inr s'" ..
  with l show ?thesis
    by (simp add: crawl_def initial_frontier_def)
qed

lemma crawl_seeds_all_failed:
  assumes "\<forall>u \<in> set seeds. fetched F u = None" and "distinct seeds"
    and "set seeds \<inter> visited_urls s = {}" and "0 < M" and "checkpoints_writable s"
  shows "visited_urls (fst (crawl_seeds L F M s seeds)) = visited_urls s \<union> set seeds"
  using assms
proof (induction seeds arbitrary: s)
  case Nil
  then show ?case by simp
next
  case (Cons u seeds)
  from Cons.prems obtain s1 where c: "crawl L F M s (Some u) = (s1, None)"
    and sp: "save_progress (visit F u s) = Inr s1"
    using crawl_failed_seed [of F u s M L] by auto
  have v1: "visited_urls s1 = insert u (visited_urls s)"
    using save_progress_fields(1) [OF sp] by simp
  have w1: "checkpoints_writable s1"
    using Cons.prems(5) save_progress_fields(4,7) [OF sp]
    by (simp add: checkpoints_writable_def del: os_path_join.simps)
  have "set seeds \<inter> visited_urls s1 = {}"
    using Cons.prems v1 by auto
  with Cons.IH [of s1] Cons.prems w1
  have "visited_urls (fst (crawl_seeds L F M s1 seeds)) = visited_urls s1 \<union> set seeds"
    by simp
  then show ?case
    by (simp add: c v1)
qed

lemma checkpoints_writable_fresh: "checkpoints_writable fresh"
  by (simp add: checkpoints_writable_def fresh_def new_scraper_def posix_disk_def OUTPUT_DIR_def
        endswith_def)

lemma distinct_listing_urls: "distinct (listing_urls n)"
proof -
  have "inj_on (\<lambda>i. BASE_URL @ ''?page='' @ replicate i (CHR ''1'')) (set [0..<n])"
    by (rule inj_onI) (simp add: replicate_eq_replicate)
  then show ?thesis
    by (simp add: listing_urls_def distinct_map)
qed

lemma crawl_seeds_site_down_card:
  "card (visited_urls (fst (crawl_seeds std site_down MAX_PAGES fresh (listing_urls 1001)))) = 1001"
proof -
  have "visited_urls (fst (crawl_seeds std site_down MAX_PAGES fresh (listing_urls 1001)))
      = visited_urls fresh \<union> set (listing_urls 1001)"
    by (rule crawl_seeds_all_failed)
       (simp_all add: site_down_def fetched_def distinct_listing_urls checkpoints_writable_fresh
          MAX_PAGES_def, simp add: fresh_def new_scraper_def)
  then have "card (visited_urls (fst (crawl_seeds std site_down MAX_PAGES fresh (listing_urls 1001))))
      = card (set (listing_urls 1001))"
    by (simp add: fresh_def new_scraper_def)
  also have "\<dots> = length (listing_urls 1001)"
    by (rule distinct_card) (rule distinct_listing_urls)
  finally show ?thesis
    by (simp add: listing_urls_def)
qed

text \<open>
  C3, as the code has it. The page counter is local to one call of \<open>crawl\<close>, so the cap
  bounds what one call adds to the visited set: a call adds at most \<open>M\<close> URLs, a
  scraper that crawls from \<open>n\<close> seeds in turn has at most \<open>n * M\<close> visited URLs, and
  a dequeued URL that is already visited is dropped with the state and the counter
  as they were.
\<close>

theorem visited_urls_bounded_per_crawl:
  assumes "finite (visited_urls s)"
  shows "card (visited_urls (fst (crawl L F M s start_url))) \<le> card (visited_urls s) + M
     \<and> card (visited_urls (fst (crawl_seeds L F M (new_scraper b out d fs dk) seeds)))
         \<le> length seeds * M
     \<and> (u \<in> visited_urls s \<longrightarrow> crawl_iter L F s u q0 c = Next s q0 c)"
proof -
  have "finite (visited_urls (new_scraper b out d fs dk))"
    "card (visited_urls (new_scraper b out d fs dk)) = 0"
    by (simp_all add: new_scraper_def)
  with crawl_seeds_visited_card [of "new_scraper b out d fs dk" L F M seeds]
  have "card (visited_urls (fst (crawl_seeds L F M (new_scraper b out d fs dk) seeds)))
         \<le> length seeds * M"
    by simp
  with crawl_visited_card [OF assms, of L F M start_url] show ?thesis
    by (simp add: crawl_iter_def)
qed

theorem visited_urls_bounded_per_crawl_witness:
  "finite (visited_urls (visit arc_site arc_seed fresh))
   \<and> card (visited_urls (fst (crawl std arc_site MAX_PAGES (visit arc_site arc_seed fresh)
                               (Some arc_guide))))
       \<le> card (visited_urls (visit arc_site arc_seed fresh)) + MAX_PAGES
   \<and> card (visited_urls (fst (crawl_seeds std arc_site MAX_PAGES
             (new_scraper BASE_URL OUTPUT_DIR DELAY Map.empty posix_disk) [arc_seed, arc_guide])))
       \<le> length [arc_seed, arc_guide] * MAX_PAGES
   \<and> arc_seed \<in> visited_urls (visit arc_site arc_seed fresh)
   \<and> crawl_iter std arc_site (visit arc_site arc_seed fresh) arc_seed [arc_guide] 1
       = Next (visit arc_site arc_seed fresh) [arc_guide] 1"
proof -
  have f: "finite (visited_urls (visit arc_site arc_seed fresh))"
    by (simp add: fresh_def new_scraper_def)
  have m: "arc_seed \<in> visited_urls (visit arc_site arc_seed fresh)"
    by simp
  from visited_urls_bounded_per_crawl [OF f, of std arc_site MAX_PAGES "Some arc_guide"
      BASE_URL OUTPUT_DIR DELAY Map.empty posix_disk "[arc_seed, arc_guide]" arc_seed "[arc_guide]" 1] f m
  show ?thesis by simp
qed

text \<open>
  C3 as the specification states it fails for a scraper that crawls from several seeds.
  With the cap at 1 and two seeds, each call visits its seed and the visited set has
  two URLs. With the cap of the source, 1000, and a site that is down, 1001 calls from
  1001 seeds leave 1001 visited URLs.
\<close>

theorem visited_urls_exceed_cap_counterexample:
  "card (visited_urls (fst (crawl_seeds std arc_site 1 fresh [arc_seed, arc_guide]))) > 1
   \<and> card (visited_urls (fst (crawl_seeds std site_down MAX_PAGES fresh (listing_urls 1001))))
       > MAX_PAGES"
proof -
  have "card (visited_urls (fst (crawl_seeds std arc_site 1 fresh [arc_seed, arc_guide]))) = 2"
    by code_simp
  then show ?thesis
    by (simp add: crawl_seeds_site_down_card) (simp add: MAX_PAGES_def)
qed

section \<open>The frontier queue\<close>

lemma crawl_iter_queue:
  assumes "crawl_iter L F s u q0 c = Next s' q' c'"
  shows "\<exists>new. q' = q0 @ new \<and> distinct new
     \<and> set new \<inter> (insert u (visited_urls s) \<union> set q0) = {}
     \<and> visited_urls s' \<subseteq> insert u (visited_urls s)"
  using assms
proof (cases rule: crawl_iter_cases)
  case skip
  then show ?thesis by auto
next
  case failed
  then show ?thesis by auto
next
  case (fetched sp page fp s4 s5 s6)
  have v4: "visited_urls s4 = insert u (visited_urls s)"
    using save_page_fields(1) [OF fetched(4)] by simp
  have "visited_urls s5 = visited_urls s4"
    using add_links_fields(1) [of u "links page" s4 q0] fetched(5) by simp
  with v4 fetched(6) wrote_only_fields(1) [OF fetched(9)]
  have v': "visited_urls s' = insert u (visited_urls s)"
    by simp
  from add_links_queue [of u "links page" s4 q0] fetched(5) v4
  obtain new where "q' = q0 @ new" "distinct new"
    "set new \<inter> (insert u (visited_urls s) \<union> set q0) = {}"
    by auto
  with v' show ?thesis by blast
qed

lemma loop_reach_queue:
  assumes "loop_reach L F M k k'" and "distinct (fst (snd k))"
  shows "distinct (fst (snd k'))
     \<and> set (fst (snd k')) \<inter> visited_urls (fst k') \<subseteq> set (fst (snd k)) \<inter> visited_urls (fst k)"
  using assms
proof (induction rule: loop_reach.induct)
  case start
  then show ?case by simp
next
  case (iter s u q0 c s' q' c')
  from iter have d: "distinct (u # q0)"
    and i: "set (u # q0) \<inter> visited_urls s \<subseteq> set (fst (snd k)) \<inter> visited_urls (fst k)"
    by simp_all
  from crawl_iter_queue [OF iter.hyps(3)]
  obtain new where n: "q' = q0 @ new" "distinct new"
    "set new \<inter> (insert u (visited_urls s) \<union> set q0) = {}"
    "visited_urls s' \<subseteq> insert u (visited_urls s)"
    by blast
  have "distinct q'"
    using d n(1,2,3) by auto
  moreover have "set q' \<inter> visited_urls s' \<subseteq> set (fst (snd k)) \<inter> visited_urls (fst k)"
    using d i n(1,3,4) by auto
  ultimately show ?case by simp
qed

text \<open>
  C4, as the code has it. The queue is first in, first out: an iteration takes the head
  and appends what it discovers at the tail. At the head of every iteration the queue
  holds no URL twice, and the only visited URL it can hold is the seed, which \<open>crawl\<close>
  enqueues without looking at the visited set. What an iteration appends is not visited.
\<close>

theorem frontier_queue_invariant:
  assumes "loop_reach L F M (s, initial_frontier s start_url, 0) (s', q', c')"
  shows "distinct q'
     \<and> set q' \<inter> visited_urls s' \<subseteq> set (initial_frontier s start_url) \<inter> visited_urls s
     \<and> (q' = u # q0 \<and> crawl_iter L F s' u q0 c' = Next s2 q2 c2
          \<longrightarrow> (\<exists>new. q2 = q0 @ new \<and> set new \<inter> visited_urls s2 = {}))"
proof -
  have "distinct (initial_frontier s start_url)"
    by (simp add: initial_frontier_def)
  with loop_reach_queue [OF assms]
  have a: "distinct q'"
    "set q' \<inter> visited_urls s' \<subseteq> set (initial_frontier s start_url) \<inter> visited_urls s"
    by simp_all
  have "\<exists>new. q2 = q0 @ new \<and> set new \<inter> visited_urls s2 = {}"
    if "crawl_iter L F s' u q0 c' = Next s2 q2 c2"
  proof -
    from crawl_iter_queue [OF that]
    obtain new where "q2 = q0 @ new"
      "set new \<inter> (insert u (visited_urls s') \<union> set q0) = {}"
      "visited_urls s2 \<subseteq> insert u (visited_urls s')"
      by blast
    then have "q2 = q0 @ new \<and> set new \<inter> visited_urls s2 = {}"
      by auto
    then show ?thesis ..
  qed
  with a show ?thesis by blast
qed

theorem frontier_queue_invariant_witness:
  "loop_reach std arc_site MAX_PAGES (fresh, initial_frontier fresh (Some arc_seed), 0)
     (next_state (crawl_iter std arc_site fresh arc_seed [] 0), [arc_guide, arc_policies], 1)
   \<and> distinct [arc_guide, arc_policies]
   \<and> set [arc_guide, arc_policies]
        \<inter> visited_urls (next_state (crawl_iter std arc_site fresh arc_seed [] 0)) = {}
   \<and> crawl_iter std arc_site (next_state (crawl_iter std arc_site fresh arc_seed [] 0))
        arc_guide [arc_policies] 1
      = Next (visit arc_site arc_guide (next_state (crawl_iter std arc_site fresh arc_seed [] 0)))
          [arc_policies] 2
   \<and> (\<exists>new. [arc_policies] = [arc_policies] @ new
         \<and> set new \<inter> visited_urls (visit arc_site arc_guide
               (next_state (crawl_iter std arc_site fresh arc_seed [] 0))) = {})"
proof -
  let ?r = "crawl_iter std arc_site fresh arc_seed [] 0"
  let ?s1 = "next_state ?r"
  have "is_Next ?r" "next_queue ?r = [arc_guide, arc_policies]" "next_counter ?r = 1"
    by code_simp+
  then have r: "?r = Next ?s1 [arc_guide, arc_policies] 1"
    by (cases ?r) simp_all
  have f: "initial_frontier fresh (Some arc_seed) = [arc_seed]"
    by (simp add: initial_frontier_def)
  have reach: "loop_reach std arc_site MAX_PAGES (fresh, initial_frontier fresh (Some arc_seed), 0)
      (?s1, [arc_guide, arc_policies], 1)"
    unfolding f
    by (rule loop_reach.iter [OF loop_reach.start _ r]) (simp add: MAX_PAGES_def)
  have nv: "arc_guide \<notin> visited_urls ?s1"
    by code_simp
  have g: "fetched arc_site arc_guide = None"
    by (simp add: fetched_def arc_site_def arc_guide_def arc_seed_def arc_policies_def)
  have i2: "crawl_iter std arc_site ?s1 arc_guide [arc_policies] 1
      = Next (visit arc_site arc_guide ?s1) [arc_policies] 2"
    using nv g by (simp add: crawl_iter_unfold)
  have v: "visited_urls fresh = {}"
    by (simp add: fresh_def new_scraper_def)
  from frontier_queue_invariant [OF reach, of arc_guide "[arc_policies]"
      "visit arc_site arc_guide ?s1" "[arc_policies]" 2] reach i2
  show ?thesis
    by (simp add: f v)
qed

text \<open>
  C4 as the specification states it fails for the seed of a later call: the first crawl
  from \<open>/arc\<close> visits \<open>/arc/guide\<close>, and a second crawl from \<open>/arc/guide\<close>
  puts that visited URL in its queue.
\<close>

theorem visited_seed_enqueued_counterexample:
  "arc_guide \<in> visited_urls (fst (crawl std arc_site MAX_PAGES fresh (Some arc_seed)))
   \<and> arc_guide \<in> set (initial_frontier (fst (crawl std arc_site MAX_PAGES fresh (Some arc_seed)))
                          (Some arc_guide))"
proof -
  have "arc_guide \<in> visited_urls (fst (crawl std arc_site MAX_PAGES fresh (Some arc_seed)))"
    by code_simp
  then show ?thesis
    by (simp add: initial_frontier_def)
qed

section \<open>The requests of a run\<close>

lemma crawl_iter_effect:
  assumes "crawl_iter L F s u q0 c = Next s' q' c'"
  shows "visited_urls s' = insert u (visited_urls s)
     \<and> gets (trace s') = gets (trace s) @ (if u \<in> visited_urls s then [] else [u])"
  using assms
proof (cases rule: crawl_iter_cases)
  case skip
  then show ?thesis by auto
next
  case failed
  then show ?thesis by simp
next
  case (fetched sp page fp s4 s5 s6)
  have s5: "s5 = fst (add_links u (links page) s4 q0)"
    using fetched(5) by simp
  have "visited_urls s' = insert u (visited_urls s)"
    using fetched(6) save_page_fields(1) [OF fetched(4)] wrote_only_fields(1) [OF fetched(9)]
    by (simp add: s5)
  moreover have "gets (trace s') = gets (trace s) @ [u]"
    using fetched(6) save_page_fields(8) [OF fetched(4)] wrote_only_fields(8) [OF fetched(9)]
    by (simp add: s5)
  ultimately show ?thesis
    using fetched(1) by simp
qed

lemma crawl_iter_raised_effect:
  assumes "crawl_iter L F s u q0 c = Raised s' e"
  shows "visited_urls s' = insert u (visited_urls s) \<and> u \<notin> visited_urls s
     \<and> gets (trace s') = gets (trace s) @ [u]"
  using crawl_iter_raised [OF assms] by auto

lemma loop_reach_fetch_once:
  assumes "loop_reach L F M k k'" and "fetch_once (fst k)"
  shows "fetch_once (fst k')"
  using assms
proof (induction rule: loop_reach.induct)
  case start
  then show ?case by simp
next
  case (iter s u q0 c s' q' c')
  then have "fetch_once s" by simp
  with crawl_iter_effect [OF iter.hyps(3)] show ?case
    by (auto simp: fetch_once_def)
qed

lemma crawl_fetch_once:
  assumes "fetch_once s"
  shows "fetch_once (fst (crawl L F M s start_url))"
proof (cases rule: crawl_end [of L F M s start_url])
  case (normal s1 q' c')
  from loop_reach_fetch_once [OF normal(2)] assms save_progress_fields(1,8) [OF normal(4)]
  show ?thesis
    by (simp add: fetch_once_def)
next
  case (at_end e s1 q' c')
  from save_progress_Inl [OF at_end(4)] have "wrote_only s1 (fst (crawl L F M s start_url))"
    by simp
  from loop_reach_fetch_once [OF at_end(2)] assms wrote_only_fields(1,8) [OF this]
  show ?thesis
    by (simp add: fetch_once_def)
next
  case (in_loop e s1 u q1 c1)
  from loop_reach_fetch_once [OF in_loop(2)] assms have "fetch_once s1" by simp
  with crawl_iter_raised_effect [OF in_loop(4)] show ?thesis
    by (auto simp: fetch_once_def)
qed

lemma crawl_seeds_fetch_once:
  assumes "fetch_once s"
  shows "fetch_once (fst (crawl_seeds L F M s seeds))"
  using assms
proof (induction seeds arbitrary: s)
  case Nil
  then show ?case by simp
next
  case (Cons seed seeds)
  let ?s1 = "fst (crawl L F M s (Some seed))"
  have f1: "fetch_once ?s1"
    using Cons.prems by (rule crawl_fetch_once)
  show ?case
  proof (cases "snd (crawl L F M s (Some seed))")
    case None
    then have "crawl_seeds L F M s (seed # seeds) = crawl_seeds L F M ?s1 seeds"
      by (cases "crawl L F M s (Some seed)") simp
    with Cons.IH [OF f1] show ?thesis by simp
  next
    case (Some e)
    then have "fst (crawl_seeds L F M s (seed # seeds)) = ?s1"
      by (cases "crawl L F M s (Some seed)") simp
    with f1 show ?thesis by simp
  qed
qed

text \<open>
  C2, as the code has it. The fetch of a URL fails when the request raises or when the
  final response has a status from 400 to 599, the only statuses for which
  \<open>raise_for_status\<close> raises. Then, for a dequeued URL that is not yet visited, the
  iteration ends in the state in which the URL was put in the visited set and then
  requested, in this order, and nothing else changed: no page, no link map entry, no
  file; the counter is one more, and the loop goes on with the rest of the queue. No
  URL is requested twice by one scraper, whatever the seeds of its crawls.
\<close>

theorem failed_fetch_visited_and_skipped:
  assumes "u \<notin> visited_urls s"
    and "F u = NoResponse
         \<or> (\<exists>status sp. F u = Response status sp \<and> 400 \<le> status \<and> status < 600)"
  shows "crawl_iter L F s u rest c
       = Next (s\<lparr>visited_urls := insert u (visited_urls s),
                  trace := trace s @ [Mark u, Get u]\<rparr>) rest (c + 1)
     \<and> pages (next_state (crawl_iter L F s u rest c)) = pages s
     \<and> link_map (next_state (crawl_iter L F s u rest c)) = link_map s
     \<and> files (next_state (crawl_iter L F s u rest c)) = files s
     \<and> (c < M \<longrightarrow> crawl_loop L F M s (u # rest) c
            = crawl_loop L F M (s\<lparr>visited_urls := insert u (visited_urls s),
                                    trace := trace s @ [Mark u, Get u]\<rparr>) rest (c + 1))
     \<and> distinct (gets (trace (fst (crawl_seeds L F M (new_scraper b out d fs dk) seeds))))"
proof -
  let ?s' = "s\<lparr>visited_urls := insert u (visited_urls s), trace := trace s @ [Mark u, Get u]\<rparr>"
  from assms(2) have f: "fetched F u = None"
    by (simp add: fetched_None_iff)
  have v: "visit F u s = ?s'"
    by (simp add: visit_def get_soup_eq)
  have i: "crawl_iter L F s u rest c = Next ?s' rest (c + 1)"
    using assms(1) f by (simp add: crawl_iter_unfold v)
  have l: "crawl_loop L F M s (u # rest) c = crawl_loop L F M ?s' rest (c + 1)"
    if "c < M"
    using that i by (subst crawl_loop.simps) simp
  have "fetch_once (new_scraper b out d fs dk)"
    by (simp add: fetch_once_def new_scraper_def)
  then have "fetch_once (fst (crawl_seeds L F M (new_scraper b out d fs dk) seeds))"
    by (rule crawl_seeds_fetch_once)
  then have d: "distinct (gets (trace (fst (crawl_seeds L F M (new_scraper b out d fs dk) seeds))))"
    by (simp add: fetch_once_def)
  show ?thesis
  proof (intro conjI)
    show "crawl_iter L F s u rest c = Next ?s' rest (c + 1)"
      by (rule i)
    show "c < M \<longrightarrow> crawl_loop L F M s (u # rest) c = crawl_loop L F M ?s' rest (c + 1)"
      using l by blast
    show "distinct (gets (trace (fst (crawl_seeds L F M (new_scraper b out d fs dk) seeds))))"
      by (rule d)
  qed (simp_all add: i)
qed

theorem failed_fetch_visited_and_skipped_witness:
  "arc_guide \<notin> visited_urls fresh
   \<and> arc_site arc_guide = Response 500 bare_soup
   \<and> crawl_iter std arc_site fresh arc_guide [arc_policies] 0
       = Next (fresh\<lparr>visited_urls := insert arc_guide (visited_urls fresh),
                      trace := trace fresh @ [Mark arc_guide, Get arc_guide]\<rparr>)
           [arc_policies] (0 + 1)
   \<and> pages (next_state (crawl_iter std arc_site fresh arc_guide [arc_policies] 0)) = pages fresh
   \<and> link_map (next_state (crawl_iter std arc_site fresh arc_guide [arc_policies] 0))
       = link_map fresh
   \<and> files (next_state (crawl_iter std arc_site fresh arc_guide [arc_policies] 0)) = files fresh
   \<and> crawl_loop std arc_site MAX_PAGES fresh (arc_guide # [arc_policies]) 0
       = crawl_loop std arc_site MAX_PAGES
           (fresh\<lparr>visited_urls := insert arc_guide (visited_urls fresh),
                   trace := trace fresh @ [Mark arc_guide, Get arc_guide]\<rparr>)
           [arc_policies] (0 + 1)
   \<and> distinct (gets (trace (fst (crawl_seeds std arc_site MAX_PAGES
         (new_scraper BASE_URL OUTPUT_DIR DELAY Map.empty posix_disk) [arc_seed, arc_guide]))))"
proof -
  have a: "arc_guide \<notin> visited_urls fresh"
    by (simp add: fresh_def new_scraper_def)
  have r: "arc_site arc_guide = Response 500 bare_soup"
    by (simp add: arc_site_def arc_guide_def arc_seed_def arc_policies_def)
  then have b: "arc_site arc_guide = NoResponse
      \<or> (\<exists>status sp. arc_site arc_guide = Response status sp \<and> 400 \<le> status \<and> status < 600)"
    by simp
  have c: "(0::nat) < MAX_PAGES"
    by (simp add: MAX_PAGES_def)
  note t = failed_fetch_visited_and_skipped [where u = arc_guide and s = fresh and F = arc_site
      and L = std and rest = "[arc_policies]"
      and c = 0 and M = MAX_PAGES and b = BASE_URL and out = OUTPUT_DIR and d = DELAY
      and fs = Map.empty and dk = posix_disk and seeds = "[arc_seed, arc_guide]", OF a b]
  from a r c t show ?thesis
    by blast
qed

text \<open>
  C2 as the specification states it, with every status outside 200 to 299 a failed
  fetch, fails: \<open>raise_for_status\<close> does not raise for a status below 400. The request
  for \<open>/arc/news\<close> is answered with status 304; the URL is fetched, and the iteration
  stores a page record for it and writes its page file.
\<close>

theorem not_modified_status_stored_counterexample:
  "arc_site arc_news = Response 304 bare_soup
   \<and> is_Next (crawl_iter std arc_site fresh arc_news [] 0)
   \<and> pages (next_state (crawl_iter std arc_site fresh arc_news [] 0))
       = [(arc_news, \<lparr>url = arc_news, title = ''No Title'', content = '''', links = []\<rparr>)]
   \<and> files (next_state (crawl_iter std arc_site fresh arc_news [] 0))
         ''umich_arc_docs/_arc_news.json''
       = Some (PageFile \<lparr>url = arc_news, title = ''No Title'', content = '''', links = []\<rparr>)"
proof (intro conjI)
  show "arc_site arc_news = Response 304 bare_soup"
    by (simp add: arc_site_def arc_news_def arc_seed_def arc_policies_def arc_guide_def)
  show "is_Next (crawl_iter std arc_site fresh arc_news [] 0)"
    by code_simp
  show "pages (next_state (crawl_iter std arc_site fresh arc_news [] 0))
       = [(arc_news, \<lparr>url = arc_news, title = ''No Title'', content = '''', links = []\<rparr>)]"
    by code_simp
  show "files (next_state (crawl_iter std arc_site fresh arc_news [] 0))
         ''umich_arc_docs/_arc_news.json''
       = Some (PageFile \<lparr>url = arc_news, title = ''No Title'', content = '''', links = []\<rparr>)"
    by code_simp
qed

section \<open>The page store and the link map\<close>

lemma extract_links_valid:
  assumes "extract_links L u as acc = Inr ls"
    and "\<forall>l \<in> set acc. is_valid_url L (link_url l) = Inr True"
  shows "\<forall>l \<in> set ls. is_valid_url L (link_url l) = Inr True"
  using assms
proof (induction as arbitrary: acc)
  case Nil
  then show ?case by simp
next
  case (Cons a as)
  obtain href lab where a: "a = (href, lab)" by (cases a)
  from Cons.prems(1) obtain full ok where
    j: "urljoin L u href = Inr full" and v: "is_valid_url L full = Inr ok"
    and r: "extract_links L u as
              (if ok then acc @ [\<lparr>link_url = full,
                                  link_text = (if lab = [] then ''No Link Text'' else lab)\<rparr>]
               else acc) = Inr ls"
    by (auto simp: a split: sum.splits)
  show ?case
  proof (rule Cons.IH [OF r])
    show "\<forall>l \<in> set (if ok then acc @ [\<lparr>link_url = full,
                link_text = (if lab = [] then ''No Link Text'' else lab)\<rparr>] else acc).
            is_valid_url L (link_url l) = Inr True"
      using Cons.prems(2) v by auto
  qed
qed

lemma extract_page_info_links_valid:
  assumes "extract_page_info L sp u = Inr p"
  shows "\<forall>l \<in> set (links p). is_valid_url L (link_url l) = Inr True"
proof (cases "region_content sp")
  case None
  with assms show ?thesis
    by (auto simp: extract_page_info_def)
next
  case (Some main_content)
  with assms obtain ls where e: "extract_links L u (anchors main_content) [] = Inr ls"
    and p: "links p = ls"
    by (auto simp: extract_page_info_def split: sum.splits)
  from extract_links_valid [OF e] p show ?thesis by simp
qed

lemma extract_page_info_no_region:
  assumes "region_content sp = None"
  shows "extract_page_info L sp u
     = Inr \<lparr>url = u,
            title = (case soup_title sp of Some t \<Rightarrow> strip t | None \<Rightarrow> ''No Title''),
            content = '''', links = []\<rparr>"
  using assms by (simp add: extract_page_info_def)

lemma store_inv_new_scraper: "store_inv L F (new_scraper b out d fs dk)"
  by (simp add: store_inv_def new_scraper_def)

lemma store_inv_wrote_only:
  assumes "wrote_only s s'"
  shows "store_inv L F s' = store_inv L F s"
  using wrote_only_fields(1,2,3) [OF assms] by (simp add: store_inv_def)

lemma crawl_iter_store_inv:
  assumes "crawl_iter L F s u q0 c = Next s' q' c'" and "store_inv L F s"
  shows "store_inv L F s'"
  using assms(1)
proof (cases rule: crawl_iter_cases)
  case skip
  with assms(2) show ?thesis by simp
next
  case failed
  with assms(2) show ?thesis
    by (auto simp: store_inv_def)
next
  case (fetched sp page fp s4 s5 s6)
  have s5: "s5 = fst (add_links u (links page) s4 q0)"
    using fetched(5) by simp
  note w = wrote_only_fields(1,2,3) [OF fetched(9)]
  have pg: "pages s' = AList.update u page (pages s)"
    using fetched(6) save_page_fields(2) [OF fetched(4)] w(2) by (simp add: s5)
  have vs: "visited_urls s' = insert u (visited_urls s)"
    using fetched(6) save_page_fields(1) [OF fetched(4)] w(1) by (simp add: s5)
  have nk: "map_of (pages s) u = None"
    using assms(2) fetched(1) by (auto simp: store_inv_def map_of_eq_None_iff)
  then have nl: "map_of (link_map s) u = None"
    using assms(2) by (simp add: store_inv_def)
  have lm: "map_of (link_map s') v =
      (if v = u \<and> links page \<noteq> [] then Some (map link_url (links page))
       else map_of (link_map s) v)" for v
    using fetched(6) save_page_fields(3) [OF fetched(4)] w(3) nl
    by (simp add: s5 add_links_link_map)
  have a: "map_of (link_map s') v =
      (case map_of (pages s') v of
         None \<Rightarrow> None
       | Some p \<Rightarrow> if links p = [] then None else Some (map link_url (links p)))" for v
    using assms(2) nl by (simp add: lm pg update_conv' store_inv_def)
  have b: "fst ` set (pages s') \<subseteq> visited_urls s'"
    using assms(2) by (auto simp: pg vs dom_update store_inv_def)
  have c: "\<exists>sp. fetched F v = Some sp \<and> extract_page_info L sp v = Inr p"
    if "map_of (pages s') v = Some p" for v p
    using that assms(2) fetched(2,3)
    by (auto simp: pg update_conv' store_inv_def split: if_splits)
  from a b c show ?thesis
    unfolding store_inv_def by blast
qed

lemma loop_reach_store_inv:
  assumes "loop_reach L F M k k'" and "store_inv L F (fst k)"
  shows "store_inv L F (fst k')"
  using assms
proof (induction rule: loop_reach.induct)
  case start
  then show ?case by simp
next
  case (iter s u q0 c s' q' c')
  then have "store_inv L F s" by simp
  with crawl_iter_store_inv [OF iter.hyps(3)] show ?case by simp
qed

lemma crawl_store_inv:
  assumes "store_inv L F s" and "snd (crawl L F M s start_url) = None"
  shows "store_inv L F (fst (crawl L F M s start_url))"
proof -
  from crawl_normal [OF assms(2)] obtain s1 q' c' where
    r: "loop_reach L F M (s, initial_frontier s start_url, 0) (s1, q', c')"
    and f: "save_progress s1 = Inr (fst (crawl L F M s start_url))"
    by blast
  from loop_reach_store_inv [OF r] assms(1) store_inv_wrote_only [OF save_progress_wrote_only [OF f]]
  show ?thesis
    by simp
qed

lemma crawl_seeds_store_inv:
  assumes "store_inv L F s" and "snd (crawl_seeds L F M s seeds) = None"
  shows "store_inv L F (fst (crawl_seeds L F M s seeds))"
  using assms
proof (induction seeds arbitrary: s)
  case Nil
  then show ?case by simp
next
  case (Cons seed seeds)
  let ?s1 = "fst (crawl L F M s (Some seed))"
  show ?case
  proof (cases "snd (crawl L F M s (Some seed))")
    case None
    then have e: "crawl_seeds L F M s (seed # seeds) = crawl_seeds L F M ?s1 seeds"
      by (cases "crawl L F M s (Some seed)") simp
    have "store_inv L F ?s1"
      using Cons.prems(1) None by (rule crawl_store_inv)
    with Cons.IH [of ?s1] Cons.prems(2) e show ?thesis by simp
  next
    case (Some e)
    then have "snd (crawl_seeds L F M s (seed # seeds)) = Some e"
      by (cases "crawl L F M s (Some seed)") simp
    with Cons.prems(2) show ?thesis by simp
  qed
qed

text \<open>
  C1, as the code has it. After any crawls of a fresh scraper, the link map entry of a
  stored page is the list of the URLs of the page's \<open>links\<close>, in order, and there is
  no entry when that list is empty; the page is what the extractor made of the fetched
  document, and every link in it passed \<open>is_valid_url\<close>. A link that fails the
  classifier is in neither.
\<close>

theorem link_map_records_page_links:
  assumes "snd (crawl_seeds L F M (new_scraper b out d fs dk) seeds) = None"
    and "map_of (pages (fst (crawl_seeds L F M (new_scraper b out d fs dk) seeds))) u = Some p"
  shows "map_of (link_map (fst (crawl_seeds L F M (new_scraper b out d fs dk) seeds))) u
       = (if links p = [] then None else Some (map link_url (links p)))
     \<and> (\<forall>l \<in> set (links p). is_valid_url L (link_url l) = Inr True)
     \<and> (\<exists>sp. fetched F u = Some sp \<and> extract_page_info L sp u = Inr p)"
proof -
  let ?S = "fst (crawl_seeds L F M (new_scraper b out d fs dk) seeds)"
  have inv: "store_inv L F ?S"
    using store_inv_new_scraper assms(1) by (rule crawl_seeds_store_inv)
  from inv assms(2) obtain sp where sp: "fetched F u = Some sp" "extract_page_info L sp u = Inr p"
    unfolding store_inv_def by blast
  from inv assms(2)
  have "map_of (link_map ?S) u = (if links p = [] then None else Some (map link_url (links p)))"
    by (simp add: store_inv_def)
  with sp extract_page_info_links_valid [OF sp(2)] show ?thesis
    by blast
qed

theorem link_map_records_page_links_witness:
  "snd (crawl_seeds std arc_site MAX_PAGES (new_scraper BASE_URL OUTPUT_DIR DELAY Map.empty posix_disk)
          [arc_seed]) = None
   \<and> map_of (pages (fst (crawl_seeds std arc_site MAX_PAGES
          (new_scraper BASE_URL OUTPUT_DIR DELAY Map.empty posix_disk) [arc_seed]))) arc_seed = Some arc_page
   \<and> map_of (link_map (fst (crawl_seeds std arc_site MAX_PAGES
          (new_scraper BASE_URL OUTPUT_DIR DELAY Map.empty posix_disk) [arc_seed]))) arc_seed
       = Some [arc_guide, arc_policies]
   \<and> is_valid_url std arc_guide = Inr True
   \<and> is_valid_url std arc_policies = Inr True"
proof -
  have a: "snd (crawl_seeds std arc_site MAX_PAGES (new_scraper BASE_URL OUTPUT_DIR DELAY Map.empty posix_disk)
          [arc_seed]) = None"
    by code_simp
  have b: "map_of (pages (fst (crawl_seeds std arc_site MAX_PAGES
          (new_scraper BASE_URL OUTPUT_DIR DELAY Map.empty posix_disk) [arc_seed]))) arc_seed = Some arc_page"
    by code_simp
  from link_map_records_page_links [OF a b] a b show ?thesis
    by (simp add: arc_page_def)
qed

text \<open>
  C1 as the specification states it fails on its own scenario: the page \<open>/arc\<close> has
  two links in scope and one to a PDF, and its link map entry has the two links in
  scope only, as has the page record.
\<close>

theorem link_map_raw_links_counterexample:
  "map (\<lambda>(href, lab). href) (anchors (the (region_content (the (fetched arc_site arc_seed)))))
     = [arc_guide, arc_policies, arc_manual]
   \<and> map_of (link_map (fst (crawl std arc_site MAX_PAGES fresh (Some arc_seed)))) arc_seed
     = Some [arc_guide, arc_policies]
   \<and> arc_manual \<notin> set [arc_guide, arc_policies]"
  by code_simp

text \<open>
  C9. After any crawls of a fresh scraper, a URL is a key of the link map exactly when
  its stored page has a link. A document with no content region gives a page with
  empty content and no links; the iteration that fetches it leaves the link map and
  the queue as they were.
\<close>

theorem link_map_keys_have_links:
  assumes "snd (crawl_seeds L F M (new_scraper b out d fs dk) seeds) = None"
  shows "(u \<in> fst ` set (link_map (fst (crawl_seeds L F M (new_scraper b out d fs dk) seeds)))
         \<longleftrightarrow> (\<exists>p. map_of (pages (fst (crawl_seeds L F M (new_scraper b out d fs dk) seeds))) u
                   = Some p \<and> links p \<noteq> []))
     \<and> (region_content sp = None \<longrightarrow>
          extract_page_info L sp v
            = Inr \<lparr>url = v,
                   title = (case soup_title sp of Some t \<Rightarrow> strip t | None \<Rightarrow> ''No Title''),
                   content = '''', links = []\<rparr>)
     \<and> (v \<notin> visited_urls s \<and> fetched F v = Some sp \<and> region_content sp = None
          \<and> crawl_iter L F s v rest c = Next s2 q2 c2
        \<longrightarrow> q2 = rest \<and> link_map s2 = link_map s
            \<and> map_of (pages s2) v
                = Some \<lparr>url = v,
                   title = (case soup_title sp of Some t \<Rightarrow> strip t | None \<Rightarrow> ''No Title''),
                   content = '''', links = []\<rparr>)"
proof -
  let ?S = "fst (crawl_seeds L F M (new_scraper b out d fs dk) seeds)"
  let ?page = "\<lparr>url = v,
      title = (case soup_title sp of Some t \<Rightarrow> strip t | None \<Rightarrow> ''No Title''),
      content = '''', links = []\<rparr>"
  have inv: "store_inv L F ?S"
    using store_inv_new_scraper assms(1) by (rule crawl_seeds_store_inv)
  have "u \<in> fst ` set (link_map ?S) \<longleftrightarrow> map_of (link_map ?S) u \<noteq> None"
    by (simp add: map_of_eq_None_iff)
  also have "\<dots> \<longleftrightarrow> (\<exists>p. map_of (pages ?S) u = Some p \<and> links p \<noteq> [])"
    using inv by (auto simp: store_inv_def split: option.splits)
  finally have keys: "u \<in> fst ` set (link_map ?S)
      \<longleftrightarrow> (\<exists>p. map_of (pages ?S) u = Some p \<and> links p \<noteq> [])" .
  have step: "q2 = rest \<and> link_map s2 = link_map s \<and> map_of (pages s2) v = Some ?page"
    if nv: "v \<notin> visited_urls s" and f: "fetched F v = Some sp" and nr: "region_content sp = None"
      and i: "crawl_iter L F s v rest c = Next s2 q2 c2"
    using i
  proof (cases rule: crawl_iter_cases)
    case skip
    with nv show ?thesis by simp
  next
    case failed
    with f show ?thesis by simp
  next
    case (fetched sp' page fp s4 s5 s6)
    from fetched(2,3) f nr have page: "page = ?page"
      by (simp add: extract_page_info_no_region)
    then have al: "s5 = s4" "q2 = rest"
      using fetched(5) by simp_all
    from fetched(6) al save_page_fields(2,3) [OF fetched(4)] wrote_only_fields(2,3) [OF fetched(9)]
    have "link_map s2 = link_map s" "pages s2 = AList.update v page (pages s)"
      by simp_all
    with al page show ?thesis
      by (simp add: update_conv')
  qed
  from keys step extract_page_info_no_region [of sp L v] show ?thesis
    by blast
qed

theorem link_map_keys_have_links_witness:
  "snd (crawl_seeds std arc_site MAX_PAGES (new_scraper BASE_URL OUTPUT_DIR DELAY Map.empty posix_disk)
          [arc_seed]) = None
   \<and> arc_seed \<in> fst ` set (link_map (fst (crawl_seeds std arc_site MAX_PAGES
          (new_scraper BASE_URL OUTPUT_DIR DELAY Map.empty posix_disk) [arc_seed])))
   \<and> (\<exists>p. map_of (pages (fst (crawl_seeds std arc_site MAX_PAGES
          (new_scraper BASE_URL OUTPUT_DIR DELAY Map.empty posix_disk) [arc_seed]))) arc_seed = Some p
         \<and> links p \<noteq> [])
   \<and> region_content bare_soup = None
   \<and> extract_page_info std bare_soup arc_policies
       = Inr \<lparr>url = arc_policies, title = ''No Title'', content = '''', links = []\<rparr>
   \<and> arc_policies \<notin> visited_urls fresh \<and> fetched arc_site arc_policies = Some bare_soup
   \<and> crawl_iter std arc_site fresh arc_policies [] 0
       = Next (next_state (crawl_iter std arc_site fresh arc_policies [] 0)) [] 1
   \<and> link_map (next_state (crawl_iter std arc_site fresh arc_policies [] 0)) = link_map fresh
   \<and> map_of (pages (next_state (crawl_iter std arc_site fresh arc_policies [] 0))) arc_policies
       = Some \<lparr>url = arc_policies, title = ''No Title'', content = '''', links = []\<rparr>"
proof -
  let ?r = "crawl_iter std arc_site fresh arc_policies [] 0"
  have a: "snd (crawl_seeds std arc_site MAX_PAGES (new_scraper BASE_URL OUTPUT_DIR DELAY Map.empty posix_disk)
          [arc_seed]) = None"
    by code_simp
  have k: "arc_seed \<in> fst ` set (link_map (fst (crawl_seeds std arc_site MAX_PAGES
          (new_scraper BASE_URL OUTPUT_DIR DELAY Map.empty posix_disk) [arc_seed])))"
    by code_simp
  have nr: "region_content bare_soup = None" "soup_title bare_soup = None"
    by (simp_all add: bare_soup_def)
  have nv: "arc_policies \<notin> visited_urls fresh"
    by (simp add: fresh_def new_scraper_def)
  have f: "fetched arc_site arc_policies = Some bare_soup"
    by (simp add: fetched_def arc_site_def arc_policies_def arc_seed_def)
  have "is_Next ?r" "next_queue ?r = []" "next_counter ?r = 1"
    by code_simp+
  then have r: "?r = Next (next_state ?r) [] 1"
    by (cases ?r) simp_all
  note t = link_map_keys_have_links [OF a, where u = arc_seed and sp = bare_soup
      and v = arc_policies and s = fresh and rest = "[]" and c = 0 and ?s2.0 = "next_state ?r"
      and ?q2.0 = "[]" and ?c2.0 = 1]
  have k': "\<exists>p. map_of (pages (fst (crawl_seeds std arc_site MAX_PAGES
          (new_scraper BASE_URL OUTPUT_DIR DELAY Map.empty posix_disk) [arc_seed]))) arc_seed = Some p
         \<and> links p \<noteq> []"
    using t k by blast
  have e: "extract_page_info std bare_soup arc_policies
       = Inr \<lparr>url = arc_policies, title = ''No Title'', content = '''', links = []\<rparr>"
    using t nr by simp
  have l: "link_map (next_state ?r) = link_map fresh
     \<and> map_of (pages (next_state ?r)) arc_policies
       = Some \<lparr>url = arc_policies, title = ''No Title'', content = '''', links = []\<rparr>"
    using t nr nv f r by simp
  from a k k' nr(1) e nv f r l show ?thesis
    by blast
qed

section \<open>The name of a page file\<close>

lemma save_page_Inr_path:
  assumes "urlparse L (url p) = Inr r" and "save_page L s p = Inr (fp, s')"
  shows "fp = page_path (output_dir s) (path r) (query r)
     \<and> disk s (files s) fp (PageFile p) = Written
     \<and> s' = s\<lparr>files := (files s)(fp \<mapsto> PageFile p), trace := trace s @ [Write fp (PageFile p)]\<rparr>"
  using assms(2) unfolding save_page_path [OF assms(1)]
  by (auto simp: write_file_def split: sum.splits write_result.splits)

lemma save_page_Written:
  assumes "urlparse L (url p) = Inr r"
    and "disk s (files s) (page_path (output_dir s) (path r) (query r)) (PageFile p) = Written"
  shows "\<exists>s'. save_page L s p = Inr (page_path (output_dir s) (path r) (query r), s')"
  using assms(2) unfolding save_page_path [OF assms(1)]
  by (simp add: write_file_def)

lemma save_page_Inl_files:
  assumes "urlparse L (url p) = Inr r" and "save_page L s p = Inl (e, s')"
  shows "e = OSError
     \<and> disk s (files s) (page_path (output_dir s) (path r) (query r)) (PageFile p) \<noteq> Written
     \<and> (\<forall>fp. fp \<noteq> page_path (output_dir s) (path r) (query r) \<longrightarrow> files s' fp = files s fp)"
  using assms(2) unfolding save_page_path [OF assms(1)]
  by (auto simp: write_file_def split: sum.splits write_result.splits)

text \<open>
  C10. The file path that \<open>save_page\<close> opens is computed from the path and the query of
  the parsed URL and from the output directory, and from nothing else. Take two pages
  whose URLs have the same path and query, whatever their scheme and host. A call of
  \<open>save_page\<close> that returns has written the file of that path, and when the call for
  the first page and then the call for the second return, they have written the same
  file, which then holds the second page. A call returns when the operating system
  accepts the write; a call that raises has left every other file as it was.
\<close>

theorem save_page_same_path_query_same_file:
  assumes "urlparse L (url p1) = Inr r1" and "urlparse L (url p2) = Inr r2"
    and "path r1 = path r2" and "query r1 = query r2"
  shows "(save_page L s p1 = Inr (fp1, s1) \<and> save_page L s1 p2 = Inr (fp2, s2)
          \<longrightarrow> fp1 = page_path (output_dir s) (path r1) (query r1)
              \<and> fp2 = page_path (output_dir s) (path r1) (query r1)
              \<and> files s1 fp1 = Some (PageFile p1)
              \<and> files s2 fp1 = Some (PageFile p2))
     \<and> (disk s (files s) (page_path (output_dir s) (path r1) (query r1)) (PageFile p1) = Written
          \<longrightarrow> (\<exists>s'. save_page L s p1
                      = Inr (page_path (output_dir s) (path r1) (query r1), s')))
     \<and> (disk s (files s) (page_path (output_dir s) (path r1) (query r1)) (PageFile p2) = Written
          \<longrightarrow> (\<exists>s'. save_page L s p2
                      = Inr (page_path (output_dir s) (path r1) (query r1), s')))
     \<and> (save_page L s p1 = Inl (e, s3)
          \<longrightarrow> e = OSError
              \<and> (\<forall>fp. fp \<noteq> page_path (output_dir s) (path r1) (query r1)
                     \<longrightarrow> files s3 fp = files s fp))"
proof (intro conjI impI)
  let ?fp = "page_path (output_dir s) (path r1) (query r1)"
  assume a: "save_page L s p1 = Inr (fp1, s1) \<and> save_page L s1 p2 = Inr (fp2, s2)"
  from save_page_Inr_path [OF assms(1), of s fp1 s1] a
  have 1: "fp1 = ?fp"
    "s1 = s\<lparr>files := (files s)(fp1 \<mapsto> PageFile p1), trace := trace s @ [Write fp1 (PageFile p1)]\<rparr>"
    by simp_all
  then have o: "output_dir s1 = output_dir s"
    by simp
  from save_page_Inr_path [OF assms(2), of s1 fp2 s2] a assms(3,4)
  have 2: "fp2 = ?fp"
    "s2 = s1\<lparr>files := (files s1)(fp2 \<mapsto> PageFile p2), trace := trace s1 @ [Write fp2 (PageFile p2)]\<rparr>"
    by (simp_all add: o)
  show "fp1 = ?fp" by (rule 1(1))
  show "fp2 = ?fp" by (rule 2(1))
  show "files s1 fp1 = Some (PageFile p1)"
    by (subst 1(2)) simp
  show "files s2 fp1 = Some (PageFile p2)"
    by (subst 2(2)) (simp add: 1(1) 2(1))
next
  assume "disk s (files s) (page_path (output_dir s) (path r1) (query r1)) (PageFile p1) = Written"
  then show "\<exists>s'. save_page L s p1 = Inr (page_path (output_dir s) (path r1) (query r1), s')"
    by (rule save_page_Written [OF assms(1)])
next
  assume "disk s (files s) (page_path (output_dir s) (path r1) (query r1)) (PageFile p2) = Written"
  then show "\<exists>s'. save_page L s p2 = Inr (page_path (output_dir s) (path r1) (query r1), s')"
    using save_page_Written [OF assms(2), of s] assms(3,4) by simp
next
  assume a: "save_page L s p1 = Inl (e, s3)"
  from save_page_Inl_files [OF assms(1) a] show "e = OSError"
    by simp
  from save_page_Inl_files [OF assms(1) a]
  show "\<forall>fp. fp \<noteq> page_path (output_dir s) (path r1) (query r1) \<longrightarrow> files s3 fp = files s fp"
    by simp
qed

theorem save_page_same_path_query_same_file_witness:
  "urlparse std (url http_page)
     = Inr \<lparr>scheme = ''http'', netloc = ''documentation.its.umich.edu'', path = ''/arc'',
             params = '''', query = ''page=1'', fragment = ''''\<rparr>
   \<and> urlparse std (url https_page)
     = Inr \<lparr>scheme = ''https'', netloc = ''documentation.its.umich.edu'', path = ''/arc'',
             params = '''', query = ''page=1'', fragment = ''''\<rparr>
   \<and> url http_page \<noteq> url https_page
   \<and> page_path (output_dir fresh) ''/arc'' ''page=1'' = ''umich_arc_docs/_arc_page_1.json''
   \<and> (\<exists>s1 s2. save_page std fresh http_page = Inr (''umich_arc_docs/_arc_page_1.json'', s1)
         \<and> save_page std s1 https_page = Inr (''umich_arc_docs/_arc_page_1.json'', s2)
         \<and> files s1 ''umich_arc_docs/_arc_page_1.json'' = Some (PageFile http_page)
         \<and> files s2 ''umich_arc_docs/_arc_page_1.json'' = Some (PageFile https_page))"
proof -
  let ?fp = "''umich_arc_docs/_arc_page_1.json''"
  have a: "urlparse std (url http_page)
     = Inr \<lparr>scheme = ''http'', netloc = ''documentation.its.umich.edu'', path = ''/arc'',
             params = '''', query = ''page=1'', fragment = ''''\<rparr>"
    by (simp add: http_page_def std_eval)
  have b: "urlparse std (url https_page)
     = Inr \<lparr>scheme = ''https'', netloc = ''documentation.its.umich.edu'', path = ''/arc'',
             params = '''', query = ''page=1'', fragment = ''''\<rparr>"
    by (simp add: https_page_def std_eval)
  have c: "url http_page \<noteq> url https_page"
    by (simp add: http_page_def https_page_def)
  have d: "page_path (output_dir fresh) ''/arc'' ''page=1'' = ?fp"
    by (simp add: page_path_def fresh_def new_scraper_def OUTPUT_DIR_def str_eval)
  have w: "posix_disk fs ?fp fc = Written" for fs fc
    by (simp add: posix_disk_def)
  have dk: "disk fresh = posix_disk"
    by (simp add: fresh_def new_scraper_def)
  note t = save_page_same_path_query_same_file [OF a b, where s = fresh]
  from t [of ?fp fresh ?fp fresh OSError fresh] d dk w
  obtain s1 where s1: "save_page std fresh http_page = Inr (?fp, s1)"
    by auto
  from save_page_fields(4,9) [OF s1] dk have o1: "output_dir s1 = output_dir fresh"
    and dk1: "disk s1 = posix_disk"
    by simp_all
  from save_page_same_path_query_same_file [OF a b, where s = s1, of ?fp s1 ?fp s1 OSError s1]
    d o1 dk1 w
  obtain s2 where s2: "save_page std s1 https_page = Inr (?fp, s2)"
    by auto
  from t [of ?fp s1 ?fp s2 OSError fresh] s1 s2
  have "files s1 ?fp = Some (PageFile http_page)" "files s2 ?fp = Some (PageFile https_page)"
    by (simp_all add: d)
  with a b c d s1 s2 show ?thesis
    by blast
qed

text \<open>
  The write can fail: a URL whose path is one segment of 300 letters gives a file name
  that the disk refuses, and \<open>save_page\<close> raises \<open>OSError\<close> with nothing written.
\<close>

lemma save_page_name_too_long:
  "(case save_page std fresh
           \<lparr>url = ''https://documentation.its.umich.edu/'' @ replicate 300 (CHR ''a''),
            title = ''Long'', content = '''', links = []\<rparr> of
      Inl (e, s') \<Rightarrow> e = OSError \<and> trace s' = []
    | Inr written \<Rightarrow> False)"
  by code_simp

section \<open>Runs of failed requests\<close>

lemma fold_visit_visited [simp]:
  "visited_urls (fold (visit F) us s) = visited_urls s \<union> set us"
  by (induction us arbitrary: s) auto

lemma fold_visit_trace [simp]:
  "trace (fold (visit F) us s) = trace s @ concat (map (\<lambda>u. [Mark u, Get u]) us)"
  by (induction us arbitrary: s) auto

lemma fold_visit_fields [simp]:
  "pages (fold (visit F) us s) = pages s"
  "link_map (fold (visit F) us s) = link_map s"
  "files (fold (visit F) us s) = files s"
  "output_dir (fold (visit F) us s) = output_dir s"
  "delay (fold (visit F) us s) = delay s"
  "disk (fold (visit F) us s) = disk s"
  by (induction us arbitrary: s, simp_all)+

lemma gets_marks_and_gets [simp]:
  "gets (concat (map (\<lambda>u. [Mark u, Get u]) us)) = us"
  "gets (concat (map ((\<lambda>u. [Mark u, Get u]) \<circ> f) xs)) = map f xs"
  by (induction us, simp_all, induction xs, simp_all)

lemma visited_snapshots_marks_and_gets [simp]:
  "visited_snapshots (concat (map (\<lambda>u. [Mark u, Get u]) us)) = []"
  "visited_snapshots (concat (map ((\<lambda>u. [Mark u, Get u]) \<circ> f) xs)) = []"
  by (induction us, simp_all, induction xs, simp_all)

lemma loop_reach_failed_run:
  assumes "loop_reach L F M k (s, us @ rest, c)" and "\<forall>u \<in> set us. fetched F u = None"
    and "distinct us" and "set us \<inter> visited_urls s = {}" and "c + length us \<le> M"
  shows "loop_reach L F M k (fold (visit F) us s, rest, c + length us)"
  using assms
proof (induction us arbitrary: s c)
  case Nil
  then show ?case by simp
next
  case (Cons u us)
  have i: "crawl_iter L F s u (us @ rest) c = Next (visit F u s) (us @ rest) (c + 1)"
    using Cons.prems by (simp add: crawl_iter_unfold)
  have r: "loop_reach L F M k (visit F u s, us @ rest, c + 1)"
  proof (rule loop_reach.iter [of L F M k s u "us @ rest" c])
    show "loop_reach L F M k (s, u # us @ rest, c)"
      using Cons.prems(1) by simp
    show "c < M"
      using Cons.prems(5) by simp
    show "crawl_iter L F s u (us @ rest) c = Next (visit F u s) (us @ rest) (c + 1)"
      by (rule i)
  qed
  have "loop_reach L F M k (fold (visit F) us (visit F u s), rest, (c + 1) + length us)"
    using Cons.prems by (intro Cons.IH [OF r]) auto
  then show ?case by simp
qed

lemma crawl_loop_failed_run:
  assumes "\<forall>u \<in> set us. fetched F u = None"
    and "distinct us" and "set us \<inter> visited_urls s = {}" and "c + length us \<le> M"
  shows "crawl_loop L F M s (us @ rest) c
     = crawl_loop L F M (fold (visit F) us s) rest (c + length us)"
  using assms
proof (induction us arbitrary: s c)
  case Nil
  then show ?case by simp
next
  case (Cons u us)
  have i: "crawl_iter L F s u (us @ rest) c = Next (visit F u s) (us @ rest) (c + 1)"
    using Cons.prems by (simp add: crawl_iter_unfold)
  have "crawl_loop L F M s ((u # us) @ rest) c = crawl_loop L F M (visit F u s) (us @ rest) (c + 1)"
    using Cons.prems(4) i by (subst crawl_loop.simps) simp
  also have "\<dots> = crawl_loop L F M (fold (visit F) us (visit F u s)) rest ((c + 1) + length us)"
    using Cons.prems by (intro Cons.IH) auto
  finally show ?case by simp
qed

section \<open>Checkpoints\<close>

lemma checkpoints_writable_cong:
  assumes "disk s' = disk s" and "output_dir s' = output_dir s"
  shows "checkpoints_writable s' = checkpoints_writable s"
  using assms by (simp add: checkpoints_writable_def del: os_path_join.simps)

lemma crawl_iter_frame:
  assumes "crawl_iter L F s u q0 c = Next s' q' c'"
  shows "disk s' = disk s \<and> output_dir s' = output_dir s"
  using assms
proof (cases rule: crawl_iter_cases)
  case skip
  then show ?thesis by simp
next
  case failed
  then show ?thesis by simp
next
  case (fetched sp page fp s4 s5 s6)
  have s5: "s5 = fst (add_links u (links page) s4 q0)"
    using fetched(5) by simp
  from fetched(6) save_page_fields(4,9) [OF fetched(4)] wrote_only_fields(4,7) [OF fetched(9)]
  show ?thesis
    by (simp add: s5)
qed

lemma crawl_iter_checkpoint:
  assumes "crawl_iter L F s u q0 c = Next s' q' c'"
  shows "visited_snapshots (trace s') = visited_snapshots (trace s)
       @ (if u \<notin> visited_urls s \<and> fetched F u \<noteq> None \<and> c' mod 10 = 0
          then [visited_urls s'] else [])
    \<and> (u \<notin> visited_urls s \<and> fetched F u \<noteq> None \<and> c' mod 10 = 0 \<longrightarrow>
       files s' (os_path_join (output_dir s') ''link_map.json'') = Some (LinkMapFile (link_map s'))
       \<and> files s' (os_path_join (output_dir s') ''visited_urls.json'')
           = Some (VisitedFile (visited_urls s')))"
  using assms
proof (cases rule: crawl_iter_cases)
  case skip
  then show ?thesis by simp
next
  case failed
  then show ?thesis by simp
next
  case (fetched sp page fp s4 s5 s6)
  have s5: "s5 = fst (add_links u (links page) s4 q0)"
    using fetched(5) by simp
  have t5: "visited_snapshots (trace s5) = visited_snapshots (trace s)"
    using save_page_fields(8) [OF fetched(4)] by (simp add: s5)
  show ?thesis
  proof (cases "c' mod 10 = 0")
    case False
    with fetched(7,8) have "s6 = s5" by simp
    with fetched(1,2,6) False t5 show ?thesis
      by (simp del: os_path_join.simps)
  next
    case True
    with fetched(7,8) have sp: "save_progress s5 = Inr s6" by simp
    from save_progress_fields(1,9) [OF sp] t5 fetched(6)
    have a: "visited_snapshots (trace s') = visited_snapshots (trace s) @ [visited_urls s']"
      by simp
    from save_progress_files [OF sp] fetched(6)
    have b: "files s' (os_path_join (output_dir s') ''link_map.json'')
          = Some (LinkMapFile (link_map s'))"
      "files s' (os_path_join (output_dir s') ''visited_urls.json'')
          = Some (VisitedFile (visited_urls s'))"
      by (simp_all del: os_path_join.simps)
    from a b fetched(1,2) True show ?thesis
      by (simp del: os_path_join.simps)
  qed
qed

subsection \<open>The hub site\<close>

lemma leaf_eq_iff [simp]: "leaf m = leaf n \<longleftrightarrow> m = n"
  by (simp add: leaf_def replicate_eq_replicate)

lemma leaf_neq_hub [simp]: "leaf n \<noteq> hub" "hub \<noteq> leaf n"
  by (simp_all add: leaf_def hub_def)

lemma hub_site_simps [simp]:
  "fetched (hub_site k) hub = Some hub_soup"
  "fetched (hub_site k) (leaf n) = (if n = k then Some bare_soup else None)"
  by (simp_all add: hub_site_def fetched_def)

lemma distinct_leaves [simp]: "distinct (map leaf [a..<b])"
  by (simp add: distinct_map inj_on_def)

lemma add_links_queue_visited:
  assumes "visited_urls s = visited_urls t"
  shows "snd (add_links u ls s q) = snd (add_links u ls t q)"
  using assms
proof (induction ls arbitrary: s t q)
  case Nil
  show ?case by simp
next
  case (Cons l ls)
  have "q_step s q (link_url l) = q_step t q (link_url l)"
    using Cons.prems by (simp add: q_step_def)
  moreover have "snd (add_links u ls (s\<lparr>link_map := lm_step u (link_url l) (link_map s)\<rparr>)
                      (q_step t q (link_url l)))
      = snd (add_links u ls (t\<lparr>link_map := lm_step u (link_url l) (link_map t)\<rparr>)
                      (q_step t q (link_url l)))"
    using Cons.prems by (intro Cons.IH) simp
  ultimately show ?case
    by (simp only: add_links_Cons)
qed

lemma hub_extract: "extract_page_info std hub_soup hub = Inr hub_page"
  by code_simp

lemma hub_parse:
  "urlparse std hub = Inr \<lparr>scheme = ''https'', netloc = ''documentation.its.umich.edu'',
      path = ''/hub'', params = '''', query = '''', fragment = ''''\<rparr>"
  by (simp add: hub_def std_eval)

lemma hub_queue:
  "snd (add_links hub (links hub_page) (fresh\<lparr>visited_urls := {hub}\<rparr>) []) = map leaf [1..<11]"
  by code_simp

lemma fresh_fields [simp]:
  "visited_urls fresh = {}" "trace fresh = []" "disk fresh = posix_disk"
  "output_dir fresh = ''umich_arc_docs''" "pages fresh = []" "link_map fresh = []"
  by (simp_all add: fresh_def new_scraper_def OUTPUT_DIR_def)

lemma hub_iter:
  assumes "fetched W hub = Some hub_soup"
  shows "crawl_iter std W fresh hub [] 0
     = Next (next_state (crawl_iter std W fresh hub [] 0)) (map leaf [1..<11]) 1"
proof -
  have u: "url hub_page = hub"
    by (simp add: hub_page_def)
  let ?s3 = "(visit W hub fresh)\<lparr>pages := AList.update hub hub_page (pages fresh)\<rparr>"
  have fp: "page_path (output_dir ?s3) ''/hub'' '''' = ''umich_arc_docs/_hub.json''"
    by (simp add: page_path_def str_eval)
  have "disk ?s3 (files ?s3) (page_path (output_dir ?s3) ''/hub'' '''') (PageFile hub_page) = Written"
    unfolding fp by (simp add: posix_disk_def)
  with save_page_Written [of std hub_page _ ?s3] hub_parse
  obtain s4 where sv: "save_page std ?s3 hub_page = Inr (page_path (output_dir ?s3) ''/hub'' '''', s4)"
    by (auto simp: u)
  have "visited_urls s4 = visited_urls (fresh\<lparr>visited_urls := {hub}\<rparr>)"
    using save_page_fields(1) [OF sv] by simp
  then have q: "snd (add_links hub (links hub_page) s4 []) = map leaf [1..<11]"
    using add_links_queue_visited [of s4 "fresh\<lparr>visited_urls := {hub}\<rparr>" hub "links hub_page" "[]"]
    by (simp only: hub_queue)
  have "\<exists>X. crawl_iter std W fresh hub [] 0 = Next X (snd (add_links hub (links hub_page) s4 [])) 1"
    using assms hub_extract sv
    by (simp add: crawl_iter_unfold iter_finish_eq del: iter_finish.simps)
  then obtain X where "crawl_iter std W fresh hub [] 0 = Next X (map leaf [1..<11]) 1"
    unfolding q by blast
  then show ?thesis by simp
qed

lemma hub_state1:
  assumes "fetched W hub = Some hub_soup"
  shows "visited_urls (next_state (crawl_iter std W fresh hub [] 0)) = {hub}"
    and "gets (trace (next_state (crawl_iter std W fresh hub [] 0))) = [hub]"
    and "visited_snapshots (trace (next_state (crawl_iter std W fresh hub [] 0))) = []"
    and "disk (next_state (crawl_iter std W fresh hub [] 0)) = posix_disk"
    and "output_dir (next_state (crawl_iter std W fresh hub [] 0)) = ''umich_arc_docs''"
proof -
  from crawl_iter_effect [OF hub_iter [where W = W, OF assms]]
  show "visited_urls (next_state (crawl_iter std W fresh hub [] 0)) = {hub}"
    and "gets (trace (next_state (crawl_iter std W fresh hub [] 0))) = [hub]"
    by simp_all
  from crawl_iter_checkpoint [OF hub_iter [where W = W, OF assms]]
  show "visited_snapshots (trace (next_state (crawl_iter std W fresh hub [] 0))) = []"
    by simp
  from crawl_iter_frame [OF hub_iter [where W = W, OF assms]]
  show "disk (next_state (crawl_iter std W fresh hub [] 0)) = posix_disk"
    and "output_dir (next_state (crawl_iter std W fresh hub [] 0)) = ''umich_arc_docs''"
    by simp_all
qed

lemma posix_disk_checkpoints:
  assumes "disk s = posix_disk" and "output_dir s = ''umich_arc_docs''"
  shows "checkpoints_writable s"
  using assms by (simp add: checkpoints_writable_def posix_disk_def endswith_def)

lemma hub_reach9:
  "loop_reach std (hub_site 9) MAX_PAGES (fresh, initial_frontier fresh (Some hub), 0)
     (hub_state9, leaf 9 # [leaf 10], 9)"
proof -
  let ?W = "hub_site 9"
  let ?s1 = "next_state (crawl_iter std ?W fresh hub [] 0)"
  have i: "crawl_iter std ?W fresh hub [] 0 = Next ?s1 (map leaf [1..<11]) 1"
    by (rule hub_iter) simp
  have sp: "map leaf [1..<11] = map leaf [1..<9] @ (leaf 9 # [leaf 10])"
    by code_simp
  have "loop_reach std ?W MAX_PAGES (fresh, [hub], 0) (?s1, map leaf [1..<9] @ (leaf 9 # [leaf 10]), 1)"
    unfolding sp [symmetric]
    by (rule loop_reach.iter [OF loop_reach.start _ i]) (simp add: MAX_PAGES_def)
  then have "loop_reach std ?W MAX_PAGES (fresh, [hub], 0)
      (fold (visit ?W) (map leaf [1..<9]) ?s1, leaf 9 # [leaf 10], 1 + length (map leaf [1..<9]))"
  proof (rule loop_reach_failed_run)
    show "\<forall>u \<in> set (map leaf [1..<9]). fetched ?W u = None"
      by auto
    show "distinct (map leaf [1..<9])"
      by simp
    show "set (map leaf [1..<9]) \<inter> visited_urls ?s1 = {}"
      by (auto simp: hub_state1(1))
    show "1 + length (map leaf [1..<9]) \<le> MAX_PAGES"
      by (simp add: MAX_PAGES_def)
  qed
  then show ?thesis
    by (simp add: hub_state9_def initial_frontier_def)
qed

lemma hub_visited9: "visited_urls hub_state9 = insert hub (leaf ` {1..<9})"
  by (simp add: hub_state9_def hub_state1(1))

lemma hub_iter10:
  "crawl_iter std (hub_site 9) hub_state9 (leaf 9) [leaf 10] 9 = Next hub_state10 [leaf 10] 10"
proof -
  let ?W = "hub_site 9"
  let ?page = "\<lparr>url = leaf 9, title = ''No Title'', content = '''', links = []\<rparr>"
  let ?s3 = "(visit ?W (leaf 9) hub_state9)\<lparr>pages := AList.update (leaf 9) ?page (pages hub_state9)\<rparr>"
  have nv: "leaf 9 \<notin> visited_urls hub_state9"
    by (auto simp: hub_visited9)
  have ex: "extract_page_info std bare_soup (leaf 9) = Inr ?page"
    by (simp add: extract_page_info_no_region bare_soup_def)
  have dk: "disk ?s3 = posix_disk" "output_dir ?s3 = ''umich_arc_docs''"
    by (simp_all add: hub_state9_def hub_state1(4,5))
  have pr: "urlparse std (url ?page) = Inr \<lparr>scheme = ''https'',
      netloc = ''documentation.its.umich.edu'',
      path = ''/hub/tiiiiiiiii'', params = '''', query = '''', fragment = ''''\<rparr>"
    by code_simp
  have fp: "page_path ''umich_arc_docs'' ''/hub/tiiiiiiiii'' ''''
      = ''umich_arc_docs/_hub_tiiiiiiiii.json''"
    by (simp add: page_path_def str_eval)
  have "disk ?s3 (files ?s3) (page_path (output_dir ?s3) ''/hub/tiiiiiiiii'' '''') (PageFile ?page)
      = Written"
    unfolding dk fp by (simp add: posix_disk_def)
  with save_page_Written [OF pr, of ?s3]
  obtain s4 where sv: "save_page std ?s3 ?page
      = Inr (page_path (output_dir ?s3) ''/hub/tiiiiiiiii'' '''', s4)"
    by auto
  have "checkpoints_writable s4"
    using save_page_fields(4,9) [OF sv] dk by (intro posix_disk_checkpoints) simp_all
  from save_progress_writable [OF this] obtain s6 where s6: "save_progress s4 = Inr s6" ..
  have "\<exists>X. crawl_iter std ?W hub_state9 (leaf 9) [leaf 10] 9 = Next X [leaf 10] 10"
    using nv ex sv s6 by (simp add: crawl_iter_unfold)
  then show ?thesis
    by (auto simp: hub_state10_def)
qed

text \<open>
  C6, as the code has it. The test of the counter and the checkpoint stand at the end of
  the loop body, which a failed request leaves early: a checkpoint is written in an
  iteration exactly when it visits a new URL, fetches it, and the counter is then a
  multiple of 10. That checkpoint puts the whole link map and the whole visited set of
  that moment in the two checkpoint files, in place of what they held; in a crawl of a
  scraper that starts with an empty visited set the visited set has as many URLs as the
  counter says. A crawl that ends without an exception has written one more
  checkpoint, of its final state.
\<close>

theorem checkpoint_after_fetched_tenth_visit:
  assumes "loop_reach L F M (s0, initial_frontier s0 start_url, 0) (s, u # rest, c)"
    and "finite (visited_urls s0)" and "c < M"
    and "crawl_iter L F s u rest c = Next s' q' c'"
  shows "visited_snapshots (trace s') = visited_snapshots (trace s)
       @ (if u \<notin> visited_urls s \<and> fetched F u \<noteq> None \<and> c' mod 10 = 0
          then [visited_urls s'] else [])
     \<and> (u \<notin> visited_urls s \<and> fetched F u \<noteq> None \<and> c' mod 10 = 0 \<longrightarrow>
          files s' (os_path_join (output_dir s') ''link_map.json'')
            = Some (LinkMapFile (link_map s'))
          \<and> files s' (os_path_join (output_dir s') ''visited_urls.json'')
              = Some (VisitedFile (visited_urls s')))
     \<and> card (visited_urls s') = card (visited_urls s0) + c'
     \<and> (snd (crawl L F M sa start_a) = None \<longrightarrow>
          files (fst (crawl L F M sa start_a))
             (os_path_join (output_dir (fst (crawl L F M sa start_a))) ''link_map.json'')
            = Some (LinkMapFile (link_map (fst (crawl L F M sa start_a))))
          \<and> files (fst (crawl L F M sa start_a))
             (os_path_join (output_dir (fst (crawl L F M sa start_a))) ''visited_urls.json'')
            = Some (VisitedFile (visited_urls (fst (crawl L F M sa start_a)))))"
proof -
  have r: "loop_reach L F M (s0, initial_frontier s0 start_url, 0) (s', q', c')"
    using assms(1,3,4) by (rule loop_reach.iter)
  from loop_reach_counter [OF r] assms(2)
  have card: "card (visited_urls s') = card (visited_urls s0) + c'"
    by simp
  note ck = crawl_iter_checkpoint [OF assms(4)]
  have fin: "files (fst (crawl L F M sa start_a))
             (os_path_join (output_dir (fst (crawl L F M sa start_a))) ''link_map.json'')
            = Some (LinkMapFile (link_map (fst (crawl L F M sa start_a))))
          \<and> files (fst (crawl L F M sa start_a))
             (os_path_join (output_dir (fst (crawl L F M sa start_a))) ''visited_urls.json'')
            = Some (VisitedFile (visited_urls (fst (crawl L F M sa start_a))))"
    if "snd (crawl L F M sa start_a) = None"
  proof -
    from crawl_normal [OF that] obtain s1 where
      "save_progress s1 = Inr (fst (crawl L F M sa start_a))"
      by blast
    from save_progress_files [OF this] show ?thesis
      by (simp del: os_path_join.simps)
  qed
  show ?thesis
  proof (intro conjI)
    show "card (visited_urls s') = card (visited_urls s0) + c'"
      by (rule card)
  qed (use ck fin in \<open>simp_all del: os_path_join.simps\<close>)
qed

theorem checkpoint_after_fetched_tenth_visit_witness:
  "loop_reach std (hub_site 9) MAX_PAGES (fresh, initial_frontier fresh (Some hub), 0)
     (hub_state9, leaf 9 # [leaf 10], 9)
   \<and> finite (visited_urls fresh) \<and> 9 < MAX_PAGES
   \<and> crawl_iter std (hub_site 9) hub_state9 (leaf 9) [leaf 10] 9 = Next hub_state10 [leaf 10] 10
   \<and> leaf 9 \<notin> visited_urls hub_state9 \<and> fetched (hub_site 9) (leaf 9) \<noteq> None
   \<and> (10::nat) mod 10 = 0
   \<and> files hub_state10 (os_path_join (output_dir hub_state10) ''link_map.json'')
       = Some (LinkMapFile (link_map hub_state10))
   \<and> files hub_state10 (os_path_join (output_dir hub_state10) ''visited_urls.json'')
       = Some (VisitedFile (visited_urls hub_state10))
   \<and> visited_snapshots (trace hub_state10)
       = visited_snapshots (trace hub_state9) @ [visited_urls hub_state10]
   \<and> card (visited_urls hub_state10) = 10
   \<and> snd (crawl std (hub_site 9) MAX_PAGES fresh (Some (leaf 9))) = None
   \<and> files (fst (crawl std (hub_site 9) MAX_PAGES fresh (Some (leaf 9))))
        (os_path_join (output_dir (fst (crawl std (hub_site 9) MAX_PAGES fresh (Some (leaf 9)))))
           ''visited_urls.json'')
       = Some (VisitedFile
                (visited_urls (fst (crawl std (hub_site 9) MAX_PAGES fresh (Some (leaf 9))))))"
proof -
  have a: "finite (visited_urls fresh)" "card (visited_urls fresh) = 0"
    by simp_all
  have b: "9 < MAX_PAGES"
    by (simp add: MAX_PAGES_def)
  have c: "leaf 9 \<notin> visited_urls hub_state9"
    by (auto simp: hub_visited9)
  have d: "fetched (hub_site 9) (leaf 9) \<noteq> None"
    by simp
  have e: "(10::nat) mod 10 = 0"
    by simp
  have f: "snd (crawl std (hub_site 9) MAX_PAGES fresh (Some (leaf 9))) = None"
    by code_simp
  note t = checkpoint_after_fetched_tenth_visit [OF hub_reach9 a(1) b hub_iter10,
      where sa = fresh and start_a = "Some (leaf 9)"]
  from t hub_reach9 hub_iter10 a b c d e f show ?thesis
    by (simp del: os_path_join.simps)
qed

text \<open>
  C6 as the specification states it fails when the tenth visit is a failed request. On
  the site \<open>hub_site 0\<close> the crawl from \<open>/hub\<close> makes 11 visits, of \<open>/hub\<close> and of
  the topics 1 to 10, whose requests are all answered with status 404. The counter
  reaches 10 at topic 9 and no checkpoint is written there: the run writes one
  checkpoint, the final one, with 11 URLs.
\<close>

theorem no_checkpoint_at_failed_tenth_visit_counterexample:
  "hub_site 0 (leaf 9) = Response 404 bare_soup
   \<and> snd (crawl std (hub_site 0) MAX_PAGES fresh (Some hub)) = None
   \<and> gets (trace (fst (crawl std (hub_site 0) MAX_PAGES fresh (Some hub)))) = hub # map leaf [1..<11]
   \<and> visited_snapshots (trace (fst (crawl std (hub_site 0) MAX_PAGES fresh (Some hub))))
       = [visited_urls (fst (crawl std (hub_site 0) MAX_PAGES fresh (Some hub)))]
   \<and> card (visited_urls (fst (crawl std (hub_site 0) MAX_PAGES fresh (Some hub)))) = 11"
proof -
  let ?W = "hub_site 0"
  let ?s1 = "next_state (crawl_iter std ?W fresh hub [] 0)"
  let ?sf = "fold (visit ?W) (map leaf [1..<11]) ?s1"
  have i: "crawl_iter std ?W fresh hub [] 0 = Next ?s1 (map leaf [1..<11]) 1"
    by (rule hub_iter) simp
  have "crawl_loop std ?W MAX_PAGES fresh [hub] 0
      = crawl_loop std ?W MAX_PAGES ?s1 (map leaf [1..<11] @ []) 1"
  proof -
    obtain s1 where s1: "s1 = ?s1" by simp
    have "crawl_iter std ?W fresh hub [] 0 = Next s1 (map leaf [1..<11]) 1"
      using i by (simp only: s1)
    then have "crawl_loop std ?W MAX_PAGES fresh [hub] 0
        = crawl_loop std ?W MAX_PAGES s1 (map leaf [1..<11]) 1"
      by (subst crawl_loop.simps) (simp add: MAX_PAGES_def)
    then show ?thesis
      by (simp add: s1)
  qed
  also have "\<dots> = crawl_loop std ?W MAX_PAGES ?sf [] (1 + length (map leaf [1..<11]))"
  proof (rule crawl_loop_failed_run)
    show "\<forall>u \<in> set (map leaf [1..<11]). fetched ?W u = None"
      by auto
    show "distinct (map leaf [1..<11])"
      by simp
    show "set (map leaf [1..<11]) \<inter> visited_urls ?s1 = {}"
      by (auto simp: hub_state1(1))
    show "1 + length (map leaf [1..<11]) \<le> MAX_PAGES"
      by (simp add: MAX_PAGES_def)
  qed
  also have "\<dots> = (?sf, None)"
    by (subst crawl_loop.simps) simp
  finally have l: "crawl_loop std ?W MAX_PAGES fresh [hub] 0 = (?sf, None)" .
  have "checkpoints_writable ?sf"
    by (intro posix_disk_checkpoints) (simp_all add: hub_state1(4,5))
  from save_progress_writable [OF this] obtain sl where sl: "save_progress ?sf = Inr sl" ..
  from l sl have "crawl std ?W MAX_PAGES fresh (Some hub) = (sl, None)"
    by (simp add: crawl_def initial_frontier_def)
  then have S: "fst (crawl std ?W MAX_PAGES fresh (Some hub)) = sl"
    "snd (crawl std ?W MAX_PAGES fresh (Some hub)) = None"
    by simp_all
  have v: "visited_urls ?sf = insert hub (leaf ` {1..<11})"
    by (simp add: hub_state1(1))
  have "card (leaf ` {1..<11}) = 10"
    by (subst card_image) (simp_all add: inj_on_def)
  then have c: "card (visited_urls ?sf) = 11"
    unfolding v by (subst card_insert_disjoint) auto
  have w: "hub_site 0 (leaf 9) = Response 404 bare_soup"
    by (simp add: hub_site_def)
  have g: "gets (trace ?sf) = hub # map leaf [1..<11]"
    "visited_snapshots (trace ?sf) = []"
    by (simp_all add: hub_state1)
  show ?thesis
    unfolding S
    using save_progress_fields(1,8,9) [OF sl] w g c
    by simp
qed

section \<open>The link graph\<close>

lemma load_data_distinct:
  assumes "distinct (map fst ps)"
  shows "distinct (map fst (load_data input_dir fs listing ps))"
  using assms
proof (induction listing arbitrary: ps)
  case Nil
  then show ?case by simp
next
  case (Cons filename listing)
  then show ?case
    by (auto simp: distinct_update simp del: os_path_join.simps
             split: option.splits file_content.splits)
qed

lemma fold_add_node:
  assumes "distinct (map fst ps)" and "fst ` set ps \<inter> fst ` set g = {}"
  shows "fold (\<lambda>(u, page) g. add_node g u (title page)) ps g
     = g @ map (\<lambda>(u, p). (u, \<lparr>attr_title = Some (title p), succ = []\<rparr>)) ps"
  using assms
proof (induction ps arbitrary: g)
  case Nil
  then show ?case by simp
next
  case (Cons a ps)
  obtain u p where a: "a = (u, p)" by (cases a)
  from Cons.prems(2) have "map_of g u = None"
    by (auto simp: a map_of_eq_None_iff)
  then have n: "add_node g u (title p) = g @ [(u, \<lparr>attr_title = Some (title p), succ = []\<rparr>)]"
    by (simp add: add_node_def)
  have "fst ` set ps \<inter> fst ` set (g @ [(u, \<lparr>attr_title = Some (title p), succ = []\<rparr>)]) = {}"
    using Cons.prems by (auto simp: a)
  with Cons.IH [of "g @ [(u, \<lparr>attr_title = Some (title p), succ = []\<rparr>)]"] Cons.prems(1)
  show ?case
    by (simp add: a n)
qed

lemma known_nodes:
  assumes "distinct (map fst ps)"
  shows "known ps (fold (\<lambda>(u, page) g. add_node g u (title page)) ps [])"
  using fold_add_node [OF assms, of "[]"]
  by (simp add: known_def case_prod_unfold)

lemma known_keys:
  assumes "known ps g"
  shows "fst ` set g = fst ` set ps"
proof -
  from assms have "map fst (map (\<lambda>(n, d). (n, attr_title d)) g)
      = map fst (map (\<lambda>(u, p). (u, Some (title p))) ps)"
    by (simp add: known_def)
  then have "map fst g = map fst ps"
    by (simp add: case_prod_unfold comp_def)
  then have "set (map fst g) = set (map fst ps)"
    by simp
  then show ?thesis
    by simp
qed

lemma map_update_same:
  assumes "map_of al k = Some d" and "h d' = h d"
  shows "map (\<lambda>(n, d). (n, h d)) (AList.update k d' al) = map (\<lambda>(n, d). (n, h d)) al"
  using assms by (induction al) (auto split: if_splits)

lemma set_update_subset: "set (AList.update k v al) \<subseteq> insert (k, v) (set al)"
  by (induction al) auto

lemma add_edge_update:
  assumes "known ps g" and "map_of ps u = Some p" and "map_of ps v \<noteq> None"
  obtains d where "map_of g u = Some d"
    and "add_edge g u v t = AList.update u (d\<lparr>succ := AList.update v t (succ d)\<rparr>) g"
proof -
  have ku: "u \<in> fst ` set ps"
    using assms(2) by (auto dest: map_of_SomeD intro: rev_image_eqI)
  have kv: "v \<in> fst ` set ps"
    using assms(3) by (simp add: map_of_eq_None_iff)
  from ku known_keys [OF assms(1)] obtain d where d: "map_of g u = Some d"
    by (cases "map_of g u") (auto simp: map_of_eq_None_iff)
  from kv known_keys [OF assms(1)] obtain dv where dv: "map_of g v = Some dv"
    by (cases "map_of g v") (auto simp: map_of_eq_None_iff)
  have "add_edge g u v t = AList.update u (d\<lparr>succ := AList.update v t (succ d)\<rparr>) g"
    by (simp add: add_edge_def ensure_node_def d dv)
  with d show ?thesis
    by (rule that)
qed

lemma add_edge_known:
  assumes "known ps g" and "map_of ps u = Some p" and "l \<in> set (links p)"
    and "map_of ps (link_url l) \<noteq> None"
  shows "known ps (add_edge g u (link_url l) (link_text l))"
proof -
  let ?v = "link_url l" and ?t = "link_text l"
  have kv: "?v \<in> fst ` set ps"
    using assms(4) by (simp add: map_of_eq_None_iff)
  from add_edge_update [OF assms(1,2,4), of ?t] obtain d where d: "map_of g u = Some d"
    and e: "add_edge g u ?v ?t = AList.update u (d\<lparr>succ := AList.update ?v ?t (succ d)\<rparr>) g"
    by blast
  let ?d' = "d\<lparr>succ := AList.update ?v ?t (succ d)\<rparr>"
  have a: "map (\<lambda>(n, d). (n, attr_title d)) (AList.update u ?d' g)
      = map (\<lambda>(u, p). (u, Some (title p))) ps"
    using map_update_same [OF d, of attr_title ?d'] assms(1) by (simp add: known_def)
  have b: "v \<in> fst ` set ps
      \<and> (\<exists>p l. map_of ps n = Some p \<and> l \<in> set (links p) \<and> link_url l = v \<and> link_text l = t)"
    if nd: "(n, dd) \<in> set (AList.update u ?d' g)" and vt: "(v, t) \<in> set (succ dd)" for n dd v t
  proof (cases "(n, dd) \<in> set g")
    case True
    with assms(1) vt show ?thesis
      by (auto simp: known_def)
  next
    case False
    with nd set_update_subset [of u ?d' g] have n: "n = u" "dd = ?d'"
      by auto
    show ?thesis
    proof (cases "(v, t) \<in> set (succ d)")
      case True
      from d have "(u, d) \<in> set g"
        by (rule map_of_SomeD)
      with assms(1) True n show ?thesis
        by (auto simp: known_def)
    next
      case False
      with vt n set_update_subset [of ?v ?t "succ d"] have "v = ?v" "t = ?t"
        by auto
      with n kv assms(2,3) show ?thesis
        by auto
    qed
  qed
  from a b show ?thesis
    unfolding e known_def by blast
qed

lemma add_edge_has_edge:
  assumes "known ps g" and "map_of ps u = Some p" and "map_of ps v \<noteq> None"
  shows "has_edge (add_edge g u v t) u v
     \<and> (has_edge g a b \<longrightarrow> has_edge (add_edge g u v t) a b)"
proof -
  from add_edge_update [OF assms, of t] obtain d where d: "map_of g u = Some d"
    and e: "add_edge g u v t = AList.update u (d\<lparr>succ := AList.update v t (succ d)\<rparr>) g"
    by blast
  show ?thesis
    unfolding e using d by (auto simp: has_edge_def update_conv')
qed

lemma add_page_edges_known:
  assumes "known ps g" and "map_of ps u = Some p" and "set ls \<subseteq> set (links p)"
  shows "known ps (add_page_edges u ls ps g)"
  using assms
proof (induction ls arbitrary: g)
  case Nil
  then show ?case by simp
next
  case (Cons l ls)
  have "known ps (if map_of ps (link_url l) \<noteq> None
                  then add_edge g u (link_url l) (link_text l) else g)"
    using Cons.prems add_edge_known [of ps g u p l] by auto
  with Cons.IH [OF _ Cons.prems(2)] Cons.prems(3) show ?case
    by simp
qed

lemma add_page_edges_has_edge:
  assumes "known ps g" and "map_of ps u = Some p" and "set ls \<subseteq> set (links p)"
  shows "(\<forall>l \<in> set ls. map_of ps (link_url l) \<noteq> None
            \<longrightarrow> has_edge (add_page_edges u ls ps g) u (link_url l))
     \<and> (\<forall>a b. has_edge g a b \<longrightarrow> has_edge (add_page_edges u ls ps g) a b)"
  using assms
proof (induction ls arbitrary: g)
  case Nil
  then show ?case by simp
next
  case (Cons l ls)
  let ?g = "if map_of ps (link_url l) \<noteq> None
            then add_edge g u (link_url l) (link_text l) else g"
  have l: "l \<in> set (links p)" and ls: "set ls \<subseteq> set (links p)"
    using Cons.prems(3) by simp_all
  have k: "known ps ?g"
    using Cons.prems(1,2) l add_edge_known [of ps g u p l] by auto
  have m: "has_edge g a b \<Longrightarrow> has_edge ?g a b" for a b
    using add_edge_has_edge [OF Cons.prems(1,2), of "link_url l" "link_text l" a b] by auto
  have h: "map_of ps (link_url l) \<noteq> None \<Longrightarrow> has_edge ?g u (link_url l)"
    using add_edge_has_edge [OF Cons.prems(1,2), of "link_url l" "link_text l"] by auto
  note ih = Cons.IH [OF k Cons.prems(2) ls]
  have e: "add_page_edges u (l # ls) ps g = add_page_edges u ls ps ?g"
    by simp
  show ?case
    unfolding e
  proof (intro conjI ballI allI impI)
    fix l' assume "l' \<in> set (l # ls)" "map_of ps (link_url l') \<noteq> None"
    then show "has_edge (add_page_edges u ls ps ?g) u (link_url l')"
      using ih h by (cases "l' = l") auto
  next
    fix a b assume "has_edge g a b"
    then have "has_edge ?g a b" by (rule m)
    with ih show "has_edge (add_page_edges u ls ps ?g) a b" by blast
  qed
qed

lemma fold_edges_known:
  assumes "known ps g" and "distinct (map fst ps)" and "set qs \<subseteq> set ps"
  shows "known ps (fold (\<lambda>(u, page) g. add_page_edges u (links page) ps g) qs g)"
  using assms
proof (induction qs arbitrary: g)
  case Nil
  then show ?case by simp
next
  case (Cons a qs)
  obtain u p where a: "a = (u, p)" by (cases a)
  from Cons.prems(2,3) have "map_of ps u = Some p"
    by (simp add: a)
  with Cons.prems(1) have "known ps (add_page_edges u (links p) ps g)"
    by (rule add_page_edges_known) simp
  with Cons.IH [OF _ Cons.prems(2)] Cons.prems(3) show ?case
    by (simp add: a)
qed

lemma fold_edges_has_edge:
  assumes "known ps g" and "distinct (map fst ps)" and "set qs \<subseteq> set ps"
  shows "(\<forall>u p l. (u, p) \<in> set qs \<and> l \<in> set (links p) \<and> map_of ps (link_url l) \<noteq> None
            \<longrightarrow> has_edge (fold (\<lambda>(u, page) g. add_page_edges u (links page) ps g) qs g)
                   u (link_url l))
     \<and> (\<forall>a b. has_edge g a b
          \<longrightarrow> has_edge (fold (\<lambda>(u, page) g. add_page_edges u (links page) ps g) qs g) a b)"
  using assms
proof (induction qs arbitrary: g)
  case Nil
  then show ?case by simp
next
  case (Cons x qs)
  obtain u p where x: "x = (u, p)" by (cases x)
  let ?g = "add_page_edges u (links p) ps g"
  let ?f = "fold (\<lambda>(u, page) g. add_page_edges u (links page) ps g) qs ?g"
  from Cons.prems(2,3) have mp: "map_of ps u = Some p"
    by (simp add: x)
  have k: "known ps ?g"
    using Cons.prems(1) mp by (rule add_page_edges_known) simp
  have qs: "set qs \<subseteq> set ps"
    using Cons.prems(3) by simp
  have step: "(\<forall>l \<in> set (links p). map_of ps (link_url l) \<noteq> None \<longrightarrow> has_edge ?g u (link_url l))
       \<and> (\<forall>a b. has_edge g a b \<longrightarrow> has_edge ?g a b)"
    using Cons.prems(1) mp by (rule add_page_edges_has_edge) simp
  note ih = Cons.IH [OF k Cons.prems(2) qs]
  have e: "fold (\<lambda>(u, page) g. add_page_edges u (links page) ps g) (x # qs) g = ?f"
    by (simp add: x)
  show ?case
    unfolding e
  proof (intro conjI allI impI)
    fix u' p' l assume a: "(u', p') \<in> set (x # qs) \<and> l \<in> set (links p')
        \<and> map_of ps (link_url l) \<noteq> None"
    show "has_edge ?f u' (link_url l)"
    proof (cases "(u', p') = (u, p)")
      case True
      with a step have "has_edge ?g u' (link_url l)" by auto
      with ih show ?thesis by blast
    next
      case False
      with a have "(u', p') \<in> set qs" by (auto simp: x)
      with a ih show ?thesis by blast
    qed
  next
    fix a b assume "has_edge g a b"
    with step have "has_edge ?g a b" by blast
    with ih show "has_edge ?f a b" by blast
  qed
qed

lemma has_edge_export:
  assumes "has_edge g u v"
  shows "\<exists>e \<in> set (export_edges g). edge_source e = u \<and> edge_target e = v"
proof -
  from assms obtain d t where "map_of g u = Some d" "map_of (succ d) v = Some t"
    by (auto simp: has_edge_def)
  then have "(u, d) \<in> set g" "(v, t) \<in> set (succ d)"
    by (auto dest: map_of_SomeD)
  then have "\<lparr>edge_source = u, edge_target = v, edge_text = t\<rparr> \<in> set (export_edges g)"
    by (force simp: export_edges_def)
  then show ?thesis
    by (intro bexI [of _ "\<lparr>edge_source = u, edge_target = v, edge_text = t\<rparr>"]) simp_all
qed

lemma export_nodes_known:
  assumes "map (\<lambda>(n, d). (n, attr_title d)) g = map (\<lambda>(u, p). (u, Some (title p))) ps"
  shows "export_nodes g = Inr (map (\<lambda>(u, p). \<lparr>node_id = u, node_title = title p\<rparr>) ps)"
  using assms
proof (induction g arbitrary: ps)
  case Nil
  then show ?case by simp
next
  case (Cons a g)
  obtain n d where a: "a = (n, d)" by (cases a)
  from Cons.prems obtain u p ps' where ps: "ps = (u, p) # ps'"
    by (cases ps) auto
  from Cons.prems have h: "n = u" "attr_title d = Some (title p)"
    "map (\<lambda>(n, d). (n, attr_title d)) g = map (\<lambda>(u, p). (u, Some (title p))) ps'"
    by (simp_all add: a ps)
  from Cons.IH [OF h(3)] h(1,2) show ?case
    by (simp add: a ps)
qed

lemma export_edges_known:
  assumes "known ps g" and "e \<in> set (export_edges g)"
  shows "edge_source e \<in> fst ` set ps \<and> edge_target e \<in> fst ` set ps
     \<and> (\<exists>p l. map_of ps (edge_source e) = Some p \<and> l \<in> set (links p)
            \<and> link_url l = edge_target e \<and> link_text l = edge_text e)"
proof -
  from assms(2) obtain n d v t where nd: "(n, d) \<in> set g" and vt: "(v, t) \<in> set (succ d)"
    and e: "e = \<lparr>edge_source = n, edge_target = v, edge_text = t\<rparr>"
    by (auto simp: export_edges_def)
  from nd have "n \<in> fst ` set g"
    by (auto intro: rev_image_eqI)
  then have "n \<in> fst ` set ps"
    by (simp add: known_keys [OF assms(1)])
  moreover from assms(1) nd vt have "v \<in> fst ` set ps
      \<and> (\<exists>p l. map_of ps n = Some p \<and> l \<in> set (links p) \<and> link_url l = v \<and> link_text l = t)"
    by (auto simp: known_def)
  ultimately show ?thesis
    by (simp add: e)
qed

text \<open>
  C8. For a page store with distinct keys, as a dictionary is and as \<open>load_data\<close>
  builds it, \<open>build_link_graph\<close> on the empty graph exports without an exception; the
  nodes are the keys of the page store, in its order, each with the title of its page;
  every edge has its source and its target among the keys and is a link of the page of
  its source, with the text of that link; and every link of a stored page to a key of
  the page store is an edge.
\<close>

theorem link_graph_export_known_pages:
  assumes "distinct (map fst ps)"
  shows "\<exists>gd. snd (build_link_graph ps []) = Inr gd
     \<and> gd_nodes gd = map (\<lambda>(u, p). \<lparr>node_id = u, node_title = title p\<rparr>) ps
     \<and> (\<forall>e \<in> set (gd_edges gd).
           edge_source e \<in> fst ` set ps \<and> edge_target e \<in> fst ` set ps
           \<and> (\<exists>p l. map_of ps (edge_source e) = Some p \<and> l \<in> set (links p)
                  \<and> link_url l = edge_target e \<and> link_text l = edge_text e))
     \<and> (\<forall>(u, p) \<in> set ps. \<forall>l \<in> set (links p). link_url l \<in> fst ` set ps
           \<longrightarrow> (\<exists>e \<in> set (gd_edges gd). edge_source e = u \<and> edge_target e = link_url l))"
proof -
  let ?g1 = "fold (\<lambda>(u, page) g. add_node g u (title page)) ps []"
  let ?g2 = "fold (\<lambda>(u, page) g. add_page_edges u (links page) ps g) ps ?g1"
  have k1: "known ps ?g1"
    by (rule known_nodes [OF assms])
  have k: "known ps ?g2"
    using k1 assms by (rule fold_edges_known) simp
  then have n: "export_nodes ?g2
      = Inr (map (\<lambda>(u, p). \<lparr>node_id = u, node_title = title p\<rparr>) ps)"
    by (intro export_nodes_known) (simp add: known_def)
  have gd: "snd (build_link_graph ps [])
      = Inr \<lparr>gd_nodes = map (\<lambda>(u, p). \<lparr>node_id = u, node_title = title p\<rparr>) ps,
             gd_edges = export_edges ?g2\<rparr>"
    by (simp add: build_link_graph_def Let_def n)
  have c: "\<exists>e \<in> set (export_edges ?g2). edge_source e = u \<and> edge_target e = link_url l"
    if "(u, p) \<in> set ps" "l \<in> set (links p)" "link_url l \<in> fst ` set ps" for u p l
  proof -
    from that(3) have "map_of ps (link_url l) \<noteq> None"
      by (simp add: map_of_eq_None_iff)
    with fold_edges_has_edge [OF k1 assms, of ps] that(1,2) have "has_edge ?g2 u (link_url l)"
      by blast
    then show ?thesis
      by (rule has_edge_export)
  qed
  have d: "\<forall>(u, p) \<in> set ps. \<forall>l \<in> set (links p). link_url l \<in> fst ` set ps
      \<longrightarrow> (\<exists>e \<in> set (export_edges ?g2). edge_source e = u \<and> edge_target e = link_url l)"
    using c by blast
  show ?thesis
  proof (intro exI conjI)
    show "snd (build_link_graph ps [])
      = Inr \<lparr>gd_nodes = map (\<lambda>(u, p). \<lparr>node_id = u, node_title = title p\<rparr>) ps,
             gd_edges = export_edges ?g2\<rparr>"
      by (rule gd)
  qed (use export_edges_known [OF k] d in simp_all)
qed

lemma arc_store_loaded:
  "load_data INPUT_DIR (files (fst (crawl std arc_site MAX_PAGES fresh (Some arc_seed))))
     arc_listing [] = arc_store"
  by code_simp

theorem link_graph_export_known_pages_witness:
  "distinct (map fst arc_store)
   \<and> snd (build_link_graph arc_store [])
       = Inr \<lparr>gd_nodes = [\<lparr>node_id = arc_seed, node_title = ''ARC''\<rparr>,
                           \<lparr>node_id = arc_policies, node_title = ''No Title''\<rparr>],
              gd_edges = [\<lparr>edge_source = arc_seed, edge_target = arc_policies,
                            edge_text = ''No Link Text''\<rparr>]\<rparr>
   \<and> (\<exists>gd. snd (build_link_graph arc_store []) = Inr gd
         \<and> gd_nodes gd = map (\<lambda>(u, p). \<lparr>node_id = u, node_title = title p\<rparr>) arc_store
         \<and> (\<forall>e \<in> set (gd_edges gd).
               edge_source e \<in> fst ` set arc_store \<and> edge_target e \<in> fst ` set arc_store
               \<and> (\<exists>p l. map_of arc_store (edge_source e) = Some p \<and> l \<in> set (links p)
                      \<and> link_url l = edge_target e \<and> link_text l = edge_text e))
         \<and> (\<forall>(u, p) \<in> set arc_store. \<forall>l \<in> set (links p). link_url l \<in> fst ` set arc_store
               \<longrightarrow> (\<exists>e \<in> set (gd_edges gd). edge_source e = u \<and> edge_target e = link_url l)))
   \<and> arc_guide \<in> link_url ` set (links arc_page) \<and> arc_guide \<notin> fst ` set arc_store"
proof -
  have d: "distinct (map fst arc_store)"
    by code_simp
  have v: "snd (build_link_graph arc_store [])
       = Inr \<lparr>gd_nodes = [\<lparr>node_id = arc_seed, node_title = ''ARC''\<rparr>,
                           \<lparr>node_id = arc_policies, node_title = ''No Title''\<rparr>],
              gd_edges = [\<lparr>edge_source = arc_seed, edge_target = arc_policies,
                            edge_text = ''No Link Text''\<rparr>]\<rparr>"
    by code_simp
  have g: "arc_guide \<in> link_url ` set (links arc_page)" "arc_guide \<notin> fst ` set arc_store"
    by code_simp+
  from link_graph_export_known_pages [OF d] d v g show ?thesis
    by blast
qed

section \<open>Page files read back\<close>

text \<open>
  C7 fails on the code for the page of the site's root. Its URL has an empty path and
  no query and passes \<open>is_valid_url\<close>; \<open>save_page\<close> names its file \<open>index.json\<close>,
  which \<open>load_data\<close> skips, so the record is not read back, and \<open>create_index\<close>
  writes the index over it. A page with another name, here \<open>/arc?page=1\<close>, is read
  back as it was saved.
\<close>

theorem site_root_page_not_reloaded:
  "is_valid_url std (url root_page) = Inr True
   \<and> (case save_page std fresh root_page of
         Inl raised \<Rightarrow> False
       | Inr (fp, s') \<Rightarrow>
           fp = ''umich_arc_docs/index.json''
           \<and> files s' fp = Some (PageFile root_page)
           \<and> load_data INPUT_DIR (files s') [''index.json''] [] = []
           \<and> (case create_index s' of
                 Inl raised \<Rightarrow> False
               | Inr s'' \<Rightarrow> files s'' fp = Some (IndexFile 0 [])))
   \<and> (case save_page std fresh http_page of
         Inl raised \<Rightarrow> False
       | Inr (fp, s') \<Rightarrow>
           fp = ''umich_arc_docs/_arc_page_1.json''
           \<and> load_data INPUT_DIR (files s') [''_arc_page_1.json''] []
               = [(url http_page, http_page)])"
  by code_simp

end
